theory Spec2Isabelle
  imports Main "HOL-Library.AList" "HOL-Library.Char_ord" "HOL-Library.List_Lexorder"
    "HOL-Library.Sublist"
begin

section \<open>Strings, white space and line terminators\<close>

text \<open>
  A JavaScript string is a sequence of UTF-16 code units. The model uses \<^typ>\<open>string\<close>:
  one \<^typ>\<open>char\<close> is one code unit in the range U+0000 .. U+00FF, so \<open>length\<close> is the
  JavaScript \<open>.length\<close> for texts in that range.
\<close>

text \<open>The line terminators of the regular expression engine below U+0100: LF and CR.\<close>

definition is_line_terminator :: "char \<Rightarrow> bool" where
  "is_line_terminator c = (c = CHR 0x0A \<or> c = CHR 0x0D)"

text \<open>
  The class \<open>\s\<close> below U+0100: TAB, LF, VT, FF, CR, SPACE and NBSP. The method
  \<open>String.prototype.trim\<close> strips the same characters.
\<close>

definition is_space :: "char \<Rightarrow> bool" where
  "is_space c = (c = CHR 0x09 \<or> c = CHR 0x0A \<or> c = CHR 0x0B \<or> c = CHR 0x0C \<or>
     c = CHR 0x0D \<or> c = CHR 0x20 \<or> c = CHR 0xA0)"

definition trim :: "string \<Rightarrow> string" where
  "trim s = rev (dropWhile is_space (rev (dropWhile is_space s)))"

section \<open>The metadata regular expressions\<close>

text \<open>
  \<open>content.match(/^#?\s*name:\s*(.+)$/m)\<close> and the same expression for \<open>description\<close>.
  The engine backtracks: every part of the expression maps the rest of the input to the
  list of rests it can leave, in the order the engine tries them (greedy first), and the
  match is the first success at the leftmost start position.
\<close>

text \<open>\<open>#?\<close>: take the \<open>#\<close> first, then try without.\<close>

fun re_opt_hash :: "string \<Rightarrow> string list" where
  "re_opt_hash (c # t) = (if c = CHR ''#'' then [t, c # t] else [c # t])"
| "re_opt_hash [] = [[]]"

text \<open>\<open>\s*\<close>: the longest run of white space first, then each shorter one.\<close>

fun re_star_space :: "string \<Rightarrow> string list" where
  "re_star_space (c # t) = (if is_space c then re_star_space t @ [c # t] else [c # t])"
| "re_star_space [] = [[]]"

text \<open>A literal: the keyword followed by the colon.\<close>

definition re_lit :: "string \<Rightarrow> string \<Rightarrow> string list" where
  "re_lit k s = (if take (length k) s = k then [drop (length k) s] else [])"

text \<open>
  \<open>(.+)\<close>: one or more characters that are not line terminators, the longest run first;
  each alternative is the captured group with the rest after it.
\<close>

definition re_plus_dot :: "string \<Rightarrow> (string \<times> string) list" where
  "re_plus_dot s =
     (let n = length (takeWhile (\<lambda>c. \<not> is_line_terminator c) s)
      in map (\<lambda>k. (take k s, drop k s)) (rev [1..<Suc n]))"

text \<open>\<open>$\<close> with the flag \<open>m\<close>: the end of the input, or just before a line terminator.\<close>

fun re_eol :: "string \<Rightarrow> bool" where
  "re_eol [] = True"
| "re_eol (c # t) = is_line_terminator c"

text \<open>
  All ways the expression after \<open>^\<close> matches at one start position, as the captured
  groups in the engine's order.
\<close>

definition re_attempt :: "string \<Rightarrow> string \<Rightarrow> string list" where
  "re_attempt key s =
     concat (map (\<lambda>r1.
       concat (map (\<lambda>r2.
         concat (map (\<lambda>r3.
           concat (map (\<lambda>r4.
             map fst (filter (\<lambda>(g, r5). re_eol r5) (re_plus_dot r4)))
           (re_star_space r3)))
         (re_lit (key @ '':'') r2)))
       (re_star_space r1)))
     (re_opt_hash s))"

text \<open>
  The search tries every start position from the left, the end of the input included.
  \<open>bol\<close> says that \<open>^\<close> holds there: at the start of the input or after a line
  terminator.
\<close>

fun re_search :: "string \<Rightarrow> bool \<Rightarrow> string \<Rightarrow> string option" where
  "re_search key bol [] = (case (if bol then re_attempt key [] else []) of
       g # _ \<Rightarrow> Some g | [] \<Rightarrow> None)"
| "re_search key bol (c # t) = (case (if bol then re_attempt key (c # t) else []) of
       g # _ \<Rightarrow> Some g
     | [] \<Rightarrow> re_search key (is_line_terminator c) t)"

text \<open>The capture group \<open>match[1]\<close> of the first match, \<open>None\<close> for \<open>null\<close>.\<close>

definition match_field :: "string \<Rightarrow> string \<Rightarrow> string option" where
  "match_field key content = re_search key True content"

section \<open>Paths\<close>

text \<open>
  \<open>path.join\<close> of Node on POSIX, for two arguments: the non-empty arguments are joined
  with \<open>/\<close> and the result is normalised. The normalisation works on the segments
  between the separators: empty segments and \<open>.\<close> are dropped, \<open>..\<close> removes the
  segment before it, or is kept at the front of a relative path.
\<close>

fun split_sep :: "char \<Rightarrow> string \<Rightarrow> string list" where
  "split_sep d [] = [[]]"
| "split_sep d (c # t) =
     (if c = d then [] # split_sep d t
      else (case split_sep d t of s # ss \<Rightarrow> (c # s) # ss | [] \<Rightarrow> [[c]]))"

fun join_sep :: "string \<Rightarrow> string list \<Rightarrow> string" where
  "join_sep d [] = []"
| "join_sep d [s] = s"
| "join_sep d (s # t # ss) = s @ d @ join_sep d (t # ss)"

definition norm_step :: "bool \<Rightarrow> string list \<Rightarrow> string \<Rightarrow> string list" where
  "norm_step allowAboveRoot res seg =
     (if seg = [] \<or> seg = ''.'' then res
      else if seg = ''..'' then
        (if res \<noteq> [] \<and> last res \<noteq> ''..'' then butlast res
         else if allowAboveRoot then res @ [''..''] else res)
      else res @ [seg])"

definition normalizeString :: "string \<Rightarrow> bool \<Rightarrow> string" where
  "normalizeString p allowAboveRoot =
     join_sep ''/'' (foldl (norm_step allowAboveRoot) [] (split_sep CHR ''/'' p))"

definition normalize :: "string \<Rightarrow> string" where
  "normalize p =
     (if p = [] then ''.''
      else
        let isAbsolute = (hd p = CHR ''/'');
            trailingSeparator = (last p = CHR ''/'');
            q = normalizeString p (\<not> isAbsolute)
        in if q = [] then (if isAbsolute then ''/'' else if trailingSeparator then ''./'' else ''.'')
           else (if isAbsolute then ''/'' else []) @ q @ (if trailingSeparator then ''/'' else []))"

definition path_join :: "string \<Rightarrow> string \<Rightarrow> string" where
  "path_join a b =
     (let joined = (if a = [] then b else if b = [] then a else a @ ''/'' @ b)
      in if joined = [] then ''.'' else normalize joined)"

section \<open>The file system\<close>

text \<open>
  A file carries its text, or \<open>None\<close> when it cannot be read. A directory carries
  whether it can be listed, whether it is writable, so that entries can be created and
  removed in it, and its entries in the order \<open>readdir\<close> returns them.
  A symbolic link is what \<open>access\<close> and \<open>readFile\<close> see through it; as a directory
  entry it is not a directory.
\<close>

datatype node = File "string option" | Dir bool bool "(string \<times> node) list"

datatype io_error = ENOENT | ENOTDIR | EACCES | EISDIR | EINVAL | EEXIST | EBUSY

fun isDirectory :: "node \<Rightarrow> bool" where
  "isDirectory (Dir l w es) = True"
| "isDirectory (File c) = False"

text \<open>\<open>fs.readFile(p, 'utf-8')\<close> on the node at \<open>p\<close>.\<close>

fun readFile :: "node \<Rightarrow> io_error + string" where
  "readFile (File (Some content)) = Inr content"
| "readFile (File None) = Inl EACCES"
| "readFile (Dir l w es) = Inl EISDIR"

section \<open>The scanner\<close>

record skill =
  name :: string
  displayName :: string
  description :: string
  category :: string
  path :: string

text \<open>
  The array \<open>skills\<close> is shared by all recursive calls and every call appends to it;
  \<open>errors\<close> is what \<open>console.error\<close> printed: the directory and the error.
\<close>

record scan_state =
  skills :: "skill list"
  errors :: "(string \<times> io_error) list"

definition nameMatch :: "string \<Rightarrow> string option" where
  "nameMatch content = match_field ''name'' content"

definition descMatch :: "string \<Rightarrow> string option" where
  "descMatch content = match_field ''description'' content"

text \<open>Line 82: the extracted description before it is truncated.\<close>

definition extractDescription :: "string \<Rightarrow> string" where
  "extractDescription content =
     (case descMatch content of Some g \<Rightarrow> trim g | None \<Rightarrow> ''No description'')"

text \<open>Lines 83 to 85.\<close>

definition truncateDescription :: "string \<Rightarrow> string" where
  "truncateDescription d = (if length d > 50 then take 47 d @ ''...'' else d)"

text \<open>Lines 78 to 93: the record pushed for a skill directory.\<close>

definition skillRecord :: "string \<Rightarrow> string \<Rightarrow> string \<Rightarrow> string \<Rightarrow> skill" where
  "skillRecord entryName cat fullPath content =
     \<lparr> name = entryName,
       displayName = (case nameMatch content of Some g \<Rightarrow> trim g | None \<Rightarrow> entryName),
       description = truncateDescription (extractDescription content),
       category = cat,
       path = fullPath \<rparr>"

definition push :: "skill \<Rightarrow> scan_state \<Rightarrow> scan_state" where
  "push r st = st\<lparr>skills := skills st @ [r]\<rparr>"

definition report :: "string \<Rightarrow> io_error \<Rightarrow> scan_state \<Rightarrow> scan_state" where
  "report dirPath e st = st\<lparr>errors := errors st @ [(dirPath, e)]\<rparr>"

text \<open>
  \<open>scanDirectory dirPath category d st\<close> scans the node \<open>d\<close> found at \<open>dirPath\<close>.
  \<open>scanEntries\<close> is the \<open>for\<close> loop of its \<open>try\<close> block; the second component of its
  result is the exception that left the loop, caught and printed by \<open>scanDirectory\<close>.
\<close>

fun scanDirectory :: "string \<Rightarrow> string \<Rightarrow> node \<Rightarrow> scan_state \<Rightarrow> scan_state"
  and scanEntries ::
    "string \<Rightarrow> string \<Rightarrow> (string \<times> node) list \<Rightarrow> scan_state \<Rightarrow> scan_state \<times> io_error option"
where
  "scanDirectory dirPath cat (File c) st = report dirPath ENOTDIR st"
| "scanDirectory dirPath cat (Dir l w es) st =
     (if \<not> l then report dirPath EACCES st
      else (case scanEntries dirPath cat es st of
              (st', None) \<Rightarrow> st'
            | (st', Some e) \<Rightarrow> report dirPath e st'))"
| "scanEntries dirPath cat [] st = (st, None)"
| "scanEntries dirPath cat ((n, File c) # rest) st = scanEntries dirPath cat rest st"
| "scanEntries dirPath cat ((n, Dir l w es) # rest) st =
     (let fullPath = path_join dirPath n in
      case map_of es ''skill.md'' of
        Some d \<Rightarrow>
          (case readFile d of
             Inl e \<Rightarrow> (st, Some e)
           | Inr content \<Rightarrow>
               scanEntries dirPath cat rest (push (skillRecord n cat fullPath content) st))
      | None \<Rightarrow>
          (let newCategory = (if cat \<noteq> [] then path_join cat n else n)
           in scanEntries dirPath cat rest (scanDirectory fullPath newCategory (Dir l w es) st)))"

definition scanSkills :: "string \<Rightarrow> node \<Rightarrow> scan_state" where
  "scanSkills repositoryPath d =
     scanDirectory repositoryPath [] d \<lparr> skills = [], errors = [] \<rparr>"

section \<open>Grouping for display\<close>

text \<open>
  Lines 172 to 196 of \<open>main\<close>. \<open>skillsByCategory\<close> is an object literal: its own
  properties are kept in the order they were created, and a key it does not own is looked
  up in \<open>Object.prototype\<close>. All properties of \<open>Object.prototype\<close> are functions, or
  the prototype itself for \<open>__proto__\<close>: they are truthy and have no \<open>push\<close>.
\<close>

datatype js_error = TypeError

type_synonym js_object = "(string \<times> skill list) list"

definition objectPrototypeKeys :: "string list" where
  "objectPrototypeKeys =
     [''constructor'', ''__defineGetter__'', ''__defineSetter__'', ''hasOwnProperty'',
      ''__lookupGetter__'', ''__lookupSetter__'', ''isPrototypeOf'', ''propertyIsEnumerable'',
      ''toString'', ''valueOf'', ''__proto__'', ''toLocaleString'']"

datatype property = Own "skill list" | Inherited | Undefined

definition getProperty :: "js_object \<Rightarrow> string \<Rightarrow> property" where
  "getProperty obj k =
     (case map_of obj k of
        Some v \<Rightarrow> Own v
      | None \<Rightarrow> if k \<in> set objectPrototypeKeys then Inherited else Undefined)"

text \<open>An array is truthy, also when it is empty; \<open>undefined\<close> is not.\<close>

fun truthy :: "property \<Rightarrow> bool" where
  "truthy (Own v) = True"
| "truthy Inherited = True"
| "truthy Undefined = False"

definition setProperty :: "js_object \<Rightarrow> string \<Rightarrow> skill list \<Rightarrow> js_object" where
  "setProperty obj k v = AList.update k v obj"

text \<open>\<open>skill.category || 'Uncategorized'\<close>: the empty string is falsy.\<close>

definition categoryLabel :: "skill \<Rightarrow> string" where
  "categoryLabel s = (if category s \<noteq> [] then category s else ''Uncategorized'')"

text \<open>
  The first loop. \<open>push\<close> on an inherited property, which is not an array, throws a
  \<open>TypeError\<close>, and so does reading \<open>push\<close> from \<open>undefined\<close>.
\<close>

fun groupLoop :: "skill list \<Rightarrow> js_object \<Rightarrow> js_error + js_object" where
  "groupLoop [] obj = Inr obj"
| "groupLoop (s # rest) obj =
     (let cat = categoryLabel s;
          obj1 = (if \<not> truthy (getProperty obj cat) then setProperty obj cat [] else obj)
      in case getProperty obj1 cat of
           Own v \<Rightarrow> groupLoop rest (setProperty obj1 cat (v @ [s]))
         | Inherited \<Rightarrow> Inl TypeError
         | Undefined \<Rightarrow> Inl TypeError)"

definition skillsByCategory :: "skill list \<Rightarrow> js_error + js_object" where
  "skillsByCategory availableSkills = groupLoop availableSkills []"

text \<open>
  \<open>Object.keys(skillsByCategory).sort()\<close>. The keys are distinct and \<open>sort\<close> without a
  comparator orders strings by their code units, so the order in which \<open>Object.keys\<close>
  lists them does not show in the result.
\<close>

definition sortedCategories :: "js_object \<Rightarrow> string list" where
  "sortedCategories obj = sort (map fst obj)"

text \<open>
  The entries of \<open>choices\<close>: a separator that shows the category, or a skill to select.
  The texts shown are made from the category and from the record.
\<close>

datatype choice = Separator string | Choice skill

fun buildChoices :: "js_object \<Rightarrow> string list \<Rightarrow> js_error + choice list" where
  "buildChoices obj [] = Inr []"
| "buildChoices obj (cat # cats) =
     (case getProperty obj cat of
        Own v \<Rightarrow>
          (case buildChoices obj cats of
             Inl e \<Rightarrow> Inl e
           | Inr cs \<Rightarrow> Inr (Separator cat # map Choice v @ cs))
      | Inherited \<Rightarrow> Inl TypeError
      | Undefined \<Rightarrow> Inl TypeError)"

definition choices :: "skill list \<Rightarrow> js_error + choice list" where
  "choices availableSkills =
     (case skillsByCategory availableSkills of
        Inl e \<Rightarrow> Inl e
      | Inr obj \<Rightarrow> buildChoices obj (sortedCategories obj))"

text \<open>
  The grouping as the specification describes it: the labels in ascending order, each
  followed by the skills with that label in the order of the scan.
\<close>

definition groupedChoices :: "skill list \<Rightarrow> choice list" where
  "groupedChoices ss =
     concat (map (\<lambda>l. Separator l # map Choice (filter (\<lambda>s. categoryLabel s = l) ss))
       (sort (remdups (map categoryLabel ss))))"

section \<open>The file system by paths\<close>

text \<open>
  A path string is resolved by the operating system from the root, or from the current
  directory when it is relative; \<open>.\<close> and empty segments are skipped and \<open>..\<close> steps
  to the parent, which for the root is the root. The result is the list of the names
  from the root. There are no symbolic links.
\<close>

type_synonym fpath = "string list"

definition resolve :: "fpath \<Rightarrow> string \<Rightarrow> fpath" where
  "resolve cwd p =
     foldl (norm_step False) (if p \<noteq> [] \<and> hd p = CHR ''/'' then [] else cwd)
       (split_sep CHR ''/'' p)"

text \<open>\<open>process.cwd()\<close>: the absolute path of the current directory.\<close>

definition processCwd :: "fpath \<Rightarrow> string" where
  "processCwd cwd = CHR ''/'' # join_sep ''/'' cwd"

fun nodeAt :: "node \<Rightarrow> fpath \<Rightarrow> node option" where
  "nodeAt d [] = Some d"
| "nodeAt (File c) (n # p) = None"
| "nodeAt (Dir l w es) (n # p) = (case map_of es n of None \<Rightarrow> None | Some d \<Rightarrow> nodeAt d p)"

text \<open>\<open>modifyAt p f\<close> replaces the node at \<open>p\<close> by its image under \<open>f\<close>, when there is one.\<close>

fun modifyAt :: "fpath \<Rightarrow> (node \<Rightarrow> node) \<Rightarrow> node \<Rightarrow> node" where
  "modifyAt [] f d = f d"
| "modifyAt (n # p) f (File c) = File c"
| "modifyAt (n # p) f (Dir l w es) =
     (case map_of es n of
        None \<Rightarrow> Dir l w es
      | Some d \<Rightarrow> Dir l w (AList.update n (modifyAt p f d) es))"

fun deleteEntry :: "string \<Rightarrow> node \<Rightarrow> node" where
  "deleteEntry n (Dir l w es) = Dir l w (AList.delete n es)"
| "deleteEntry n (File c) = File c"

text \<open>A new entry is listed last; an entry that exists keeps its place.\<close>

fun putEntry :: "string \<Rightarrow> node \<Rightarrow> node \<Rightarrow> node" where
  "putEntry n v (Dir l w es) = Dir l w (AList.update n v es)"
| "putEntry n v (File c) = File c"

subsection \<open>The operations of fs-extra the installer calls\<close>

text \<open>
  The model has the failures that come from what is on the disk: a path that does not
  exist, a file that cannot be read, a directory that cannot be listed, a directory in
  which no entry can be created or removed, a file where a directory is needed, a
  directory copied into itself. Every directory can be passed through, and the disk is
  never full.
\<close>

definition pathExists :: "fpath \<Rightarrow> node \<Rightarrow> string \<Rightarrow> bool" where
  "pathExists cwd root p = (nodeAt root (resolve cwd p) \<noteq> None)"

text \<open>
  What \<open>fs.remove\<close>, the recursive and forced \<open>rm\<close> of Node, leaves of a tree whose
  parent directory is writable or not (\<open>pw\<close>); \<open>None\<close> when the whole tree is removed.
  An entry is unlinked only from a writable directory. A directory that is not empty
  has to be listed; each of its entries is removed as far as it can be, also when
  another entry cannot be removed, and the directory goes when nothing is left in it.
\<close>

fun removeTree :: "bool \<Rightarrow> node \<Rightarrow> node option"
  and removeEntries :: "bool \<Rightarrow> (string \<times> node) list \<Rightarrow> (string \<times> node) list"
where
  "removeTree pw (File c) = (if pw then None else Some (File c))"
| "removeTree pw (Dir l w es) =
     (if \<not> pw \<or> (es \<noteq> [] \<and> \<not> l) then Some (Dir l w es)
      else (case removeEntries w es of
              [] \<Rightarrow> None
            | e # es' \<Rightarrow> Some (Dir l w (e # es'))))"
| "removeEntries w [] = []"
| "removeEntries w ((n, d) # rest) =
     (case removeTree w d of
        None \<Rightarrow> removeEntries w rest
      | Some d' \<Rightarrow> (n, d') # removeEntries w rest)"

text \<open>
  \<open>fs.remove\<close>: nothing happens when the path does not exist; what could not be removed
  stays, and the call throws. The root directory is busy.
\<close>

definition remove :: "fpath \<Rightarrow> string \<Rightarrow> node \<Rightarrow> node \<times> io_error option" where
  "remove cwd p root =
     (let t = resolve cwd p
      in if t = [] then (root, Some EBUSY)
         else (case nodeAt root (butlast t) of
                 Some (Dir l w es) \<Rightarrow>
                   (case map_of es (last t) of
                      None \<Rightarrow> (root, None)
                    | Some d \<Rightarrow>
                        (case removeTree w d of
                           None \<Rightarrow> (modifyAt (butlast t) (deleteEntry (last t)) root, None)
                         | Some d' \<Rightarrow>
                             (modifyAt (butlast t) (putEntry (last t) d') root, Some EACCES)))
               | Some (File c) \<Rightarrow> (root, None)
               | None \<Rightarrow> (root, None)))"

text \<open>
  \<open>fs.ensureDir\<close>: the directory and every missing directory above it are created, each
  in a directory that has to be writable. A new directory can be listed and written.
\<close>

fun ensureDirAt :: "fpath \<Rightarrow> node \<Rightarrow> io_error + node" where
  "ensureDirAt [] (Dir l w es) = Inr (Dir l w es)"
| "ensureDirAt [] (File c) = Inl EEXIST"
| "ensureDirAt (n # p) (File c) = Inl ENOTDIR"
| "ensureDirAt (n # p) (Dir l w es) =
     (case map_of es n of
        Some d \<Rightarrow>
          (case ensureDirAt p d of
             Inl e \<Rightarrow> Inl e
           | Inr d' \<Rightarrow> Inr (Dir l w (AList.update n d' es)))
      | None \<Rightarrow>
          if \<not> w then Inl EACCES
          else (case ensureDirAt p (Dir True True []) of
                  Inl e \<Rightarrow> Inl e
                | Inr d' \<Rightarrow> Inr (Dir l w (AList.update n d' es))))"

definition ensureDir :: "fpath \<Rightarrow> string \<Rightarrow> node \<Rightarrow> io_error + node" where
  "ensureDir cwd p root = ensureDirAt (resolve cwd p) root"

text \<open>
  What a recursive copy of a tree creates at the destination, and the error that ended
  it. The directory at the destination is created, listable and writable, before the
  source is listed. The entries of a directory are copied side by side: an entry that
  fails does not stop the others, and the error thrown is that of the first entry, as
  they are listed, that failed. When all entries are copied the new directory gets the
  mode of its source; a file is copied with its mode.
\<close>

fun copyTree :: "node \<Rightarrow> node option \<times> io_error option"
  and copyEntries :: "(string \<times> node) list \<Rightarrow> (string \<times> node) list \<times> io_error option"
where
  "copyTree (File (Some c)) = (Some (File (Some c)), None)"
| "copyTree (File None) = (None, Some EACCES)"
| "copyTree (Dir l w es) =
     (if \<not> l then (Some (Dir True True []), Some EACCES)
      else (case copyEntries es of
              (es', None) \<Rightarrow> (Some (Dir l w es'), None)
            | (es', Some e) \<Rightarrow> (Some (Dir True True es'), Some e)))"
| "copyEntries [] = ([], None)"
| "copyEntries ((n, d) # rest) =
     (case copyTree d of
        (res, err) \<Rightarrow>
          (case copyEntries rest of
             (es', err') \<Rightarrow>
               ((case res of None \<Rightarrow> es' | Some d' \<Rightarrow> (n, d') # es'),
                (case err of None \<Rightarrow> err' | Some e \<Rightarrow> Some e))))"

text \<open>
  \<open>fs.copy(src, dest)\<close>, for a destination that does not exist: the installer removes
  the destination before it copies. For a destination that exists fs-extra merges the
  two trees; the model has an error there. The destination is created in its parent
  directory, which has to be writable. The result is the file system after the call
  and the error thrown, if any.
\<close>

definition copy :: "fpath \<Rightarrow> string \<Rightarrow> string \<Rightarrow> node \<Rightarrow> node \<times> io_error option" where
  "copy cwd src dest root =
     (let s = resolve cwd src; t = resolve cwd dest
      in case nodeAt root s of
           None \<Rightarrow> (root, Some ENOENT)
         | Some d \<Rightarrow>
             if nodeAt root t \<noteq> None then (root, Some EEXIST)
             else if isDirectory d \<and> prefix s t then (root, Some EINVAL)
             else (case ensureDirAt (butlast t) root of
                     Inl e \<Rightarrow> (root, Some e)
                   | Inr root1 \<Rightarrow>
                       (case nodeAt root1 (butlast t) of
                          Some (Dir l w es) \<Rightarrow>
                            if \<not> w then (root1, Some EACCES)
                            else (case copyTree d of
                                    (None, err) \<Rightarrow> (root1, err)
                                  | (Some d', err) \<Rightarrow>
                                      (modifyAt (butlast t) (putEntry (last t) d') root1, err))
                        | Some (File c) \<Rightarrow> (root1, Some ENOTDIR)
                        | None \<Rightarrow> (root1, Some ENOTDIR))))"

section \<open>The installer\<close>

definition CLAUDE_SKILLS_DIR :: string where
  "CLAUDE_SKILLS_DIR = ''.claude/skills''"

text \<open>
  The state of an installation: the file system and the lines \<open>console.log\<close> printed
  for the skills that were copied, each the display name of a skill. The second
  component of a result is the exception that ended the call, thrown by \<open>fs.remove\<close>
  or by \<open>fs.copy\<close>; \<open>main\<close> prints it and exits with the code 1.
\<close>

type_synonym install_state = "node \<times> string list"

fun installLoop ::
    "fpath \<Rightarrow> string \<Rightarrow> skill list \<Rightarrow> install_state \<Rightarrow> install_state \<times> io_error option" where
  "installLoop cwd targetPath [] st = (st, None)"
| "installLoop cwd targetPath (s # rest) (root, out) =
     (let targetSkillPath = path_join targetPath (name s)
      in case (if pathExists cwd root targetSkillPath
               then remove cwd targetSkillPath root else (root, None)) of
           (root1, Some e) \<Rightarrow> ((root1, out), Some e)
         | (root1, None) \<Rightarrow>
             (case copy cwd (path s) targetSkillPath root1 of
                (root2, Some e) \<Rightarrow> ((root2, out), Some e)
              | (root2, None) \<Rightarrow>
                  installLoop cwd targetPath rest (root2, out @ [displayName s])))"

definition installSkills ::
    "fpath \<Rightarrow> skill list \<Rightarrow> string \<Rightarrow> node \<Rightarrow> install_state \<times> io_error option" where
  "installSkills cwd selected targetDir root =
     (let targetPath = path_join targetDir CLAUDE_SKILLS_DIR
      in case ensureDir cwd targetPath root of
           Inl e \<Rightarrow> ((root, []), Some e)
         | Inr root1 \<Rightarrow> installLoop cwd targetPath selected (root1, []))"

text \<open>
  The effect of the loop on the entries \<open>E\<close> of the install directory, which is writable
  or not (\<open>w\<close>), for sources that the loop does not change: \<open>src s\<close> is the tree at the
  source path of the skill \<open>s\<close>.
\<close>

definition copyResult :: "(skill \<Rightarrow> node option) \<Rightarrow> skill \<Rightarrow> node option \<times> io_error option" where
  "copyResult src s = (case src s of None \<Rightarrow> (None, Some ENOENT) | Some d \<Rightarrow> copyTree d)"

text \<open>The entry that the copy of a skill creates, if it creates one.\<close>

definition created :: "(skill \<Rightarrow> node option) \<Rightarrow> skill \<Rightarrow> (string \<times> node) list" where
  "created src s = (case fst (copyResult src s) of None \<Rightarrow> [] | Some d' \<Rightarrow> [(name s, d')])"

definition copyInto ::
    "bool \<Rightarrow> (skill \<Rightarrow> node option) \<Rightarrow> skill \<Rightarrow> (string \<times> node) list
      \<Rightarrow> (string \<times> node) list \<times> io_error option" where
  "copyInto w src s E =
     (if \<not> w \<and> src s \<noteq> None then (E, Some EACCES)
      else (E @ created src s, snd (copyResult src s)))"

definition stepEntries ::
    "bool \<Rightarrow> (skill \<Rightarrow> node option) \<Rightarrow> skill \<Rightarrow> (string \<times> node) list
      \<Rightarrow> (string \<times> node) list \<times> io_error option" where
  "stepEntries w src s E =
     (case map_of E (name s) of
        None \<Rightarrow> copyInto w src s E
      | Some x \<Rightarrow>
          (case removeTree w x of
             None \<Rightarrow> copyInto w src s (AList.delete (name s) E)
           | Some x' \<Rightarrow> (AList.update (name s) x' E, Some EACCES)))"

text \<open>The entries after the loop, the skills it installed and the error that ended it.\<close>

fun runEntries ::
    "bool \<Rightarrow> (skill \<Rightarrow> node option) \<Rightarrow> skill list \<Rightarrow> (string \<times> node) list
      \<Rightarrow> (string \<times> node) list \<times> skill list \<times> io_error option" where
  "runEntries w src [] E = (E, [], None)"
| "runEntries w src (s # rest) E =
     (case stepEntries w src s E of
        (E1, Some e) \<Rightarrow> (E1, [], Some e)
      | (E1, None) \<Rightarrow>
          (case runEntries w src rest E1 of (E2, ss, err) \<Rightarrow> (E2, s # ss, err)))"

text \<open>What the copies of the skills leave when each is removed by a later one of its name.\<close>

fun produced :: "(skill \<Rightarrow> node option) \<Rightarrow> skill list \<Rightarrow> (string \<times> node) list" where
  "produced src [] = []"
| "produced src (s # rest) =
     filter (\<lambda>e. fst e \<notin> name ` set rest) (created src s) @ produced src rest"

text \<open>The file system with the entries \<open>E\<close> in the directory at \<open>tb\<close>.\<close>

fun withEntries :: "(string \<times> node) list \<Rightarrow> node \<Rightarrow> node" where
  "withEntries E (Dir l w es) = Dir l w E"
| "withEntries E (File c) = File c"

definition setEntries :: "fpath \<Rightarrow> (string \<times> node) list \<Rightarrow> node \<Rightarrow> node" where
  "setEntries tb E r = modifyAt tb (withEntries E) r"

text \<open>
  A source lies outside the install directory: neither in it nor above it. The
  installer then cannot change it.
\<close>

definition outside :: "fpath \<Rightarrow> fpath \<Rightarrow> bool" where
  "outside tb q = (\<not> prefix tb q \<and> \<not> prefix q tb)"

text \<open>Every directory of the tree that is not empty is writable.\<close>

fun writableDirs :: "node \<Rightarrow> bool"
  and writableEntries :: "(string \<times> node) list \<Rightarrow> bool"
where
  "writableDirs (File c) = True"
| "writableDirs (Dir l w es) = ((w \<or> es = []) \<and> writableEntries es)"
| "writableEntries [] = True"
| "writableEntries ((n, d) # rest) = (writableDirs d \<and> writableEntries rest)"

section \<open>An example file system\<close>

text \<open>
  A repository with the skill \<open>foo\<close> in three categories, one of them with a file that
  cannot be read, and a working directory that already holds an installed skill.
\<close>

definition exampleSkillDir :: "string \<Rightarrow> node" where
  "exampleSkillDir t =
     Dir True True [(''skill.md'', File (Some t)),
               (''assets'', Dir True True [(''notes.txt'', File (Some ''notes''))])]"

definition exampleFs :: node where
  "exampleFs = Dir True True
     [(''repo'', Dir True True
        [(''A'', Dir True True [(''bar'', exampleSkillDir ''name: Bar''),
                           (''foo'', exampleSkillDir ''name: Foo of A'')]),
         (''B'', Dir True True [(''foo'', Dir True True [(''skill.md'', File (Some ''name: Foo of B'')),
                                               (''secret'', File None)])]),
         (''C'', Dir True True [(''foo'', exampleSkillDir ''name: Foo of C'')])]),
      (''work'', Dir True True
        [(''.claude'', Dir True True [(''skills'', Dir True True [(''old'', exampleSkillDir ''name: Old'')])])])]"

text \<open>The record the scan of \<open>/repo\<close> makes for the skill \<open>n\<close> of the category \<open>cat\<close>.\<close>

definition exampleSkill :: "string \<Rightarrow> string \<Rightarrow> string \<Rightarrow> skill" where
  "exampleSkill cat n shown =
     \<lparr> name = n, displayName = shown, description = ''No description'',
       category = cat, path = ''/repo/'' @ cat @ ''/'' @ n \<rparr>"

text \<open>
  A repository whose skill \<open>docs\<close> holds a directory that is read-only, and an empty
  working directory.
\<close>

definition readOnlyFs :: node where
  "readOnlyFs = Dir True True
     [(''repo'', Dir True True
        [(''docs'', Dir True True
           [(''skill.md'', File (Some ''name: Docs'')),
            (''assets'', Dir True False [(''notes.txt'', File (Some ''notes''))])])]),
      (''work'', Dir True True [])]"

definition docsSkill :: skill where
  "docsSkill =
     \<lparr> name = ''docs'', displayName = ''Docs'', description = ''No description'',
       category = [], path = ''/repo/docs'' \<rparr>"

section \<open>The directory tree as the specification describes it\<close>

text \<open>
  The names \<open>readdir\<close> returns: not empty, without a separator, and neither \<open>.\<close>
  nor \<open>..\<close>.
\<close>

definition valid_name :: "string \<Rightarrow> bool" where
  "valid_name n = (n \<noteq> [] \<and> CHR ''/'' \<notin> set n \<and> n \<noteq> ''.'' \<and> n \<noteq> ''..'')"

fun validNames :: "node \<Rightarrow> bool"
  and validEntryNames :: "(string \<times> node) list \<Rightarrow> bool"
where
  "validNames (File c) = True"
| "validNames (Dir l w es) = validEntryNames es"
| "validEntryNames [] = True"
| "validEntryNames ((n, d) # rest) = (valid_name n \<and> validNames d \<and> validEntryNames rest)"

text \<open>
  \<open>skillAt es cs n\<close>: below a directory with the entries \<open>es\<close>, the directories named
  \<open>cs\<close>, one inside the other and none with a descriptor, lead to a directory named
  \<open>n\<close> that holds a descriptor.
\<close>

fun skillAt :: "(string \<times> node) list \<Rightarrow> string list \<Rightarrow> string \<Rightarrow> bool" where
  "skillAt [] cs n = False"
| "skillAt ((m, File c) # es) cs n = skillAt es cs n"
| "skillAt ((m, Dir l w es') # es) cs n =
     ((case cs of
         [] \<Rightarrow> m = n \<and> map_of es' ''skill.md'' \<noteq> None
       | k # cs' \<Rightarrow> m = k \<and> map_of es' ''skill.md'' = None \<and> skillAt es' cs' n)
      \<or> skillAt es cs n)"

text \<open>A directory that holds a descriptor, or has such a directory somewhere below it.\<close>

fun skillBearing :: "node \<Rightarrow> bool"
  and anySkillBearing :: "(string \<times> node) list \<Rightarrow> bool"
where
  "skillBearing (File c) = False"
| "skillBearing (Dir l w es) = (map_of es ''skill.md'' \<noteq> None \<or> anySkillBearing es)"
| "anySkillBearing [] = False"
| "anySkillBearing ((n, d) # rest) = (skillBearing d \<or> anySkillBearing rest)"

text \<open>Every directory of the tree can be listed.\<close>

fun listable :: "node \<Rightarrow> bool"
  and listableEntries :: "(string \<times> node) list \<Rightarrow> bool"
where
  "listable (File c) = True"
| "listable (Dir l w es) = (l \<and> listableEntries es)"
| "listableEntries [] = True"
| "listableEntries ((n, d) # rest) = (listable d \<and> listableEntries rest)"

text \<open>
  No input or output fails in a scan of the entries: every descriptor the scan opens is
  a file that can be read, and every directory it descends into can be listed.
\<close>

fun ioOk :: "node \<Rightarrow> bool"
  and ioOkEntries :: "(string \<times> node) list \<Rightarrow> bool"
where
  "ioOk (File c) = True"
| "ioOk (Dir l w es) =
     (case map_of es ''skill.md'' of
        Some d \<Rightarrow> (case readFile d of Inr t \<Rightarrow> True | Inl e \<Rightarrow> False)
      | None \<Rightarrow> l \<and> ioOkEntries es)"
| "ioOkEntries [] = True"
| "ioOkEntries ((n, d) # rest) = (ioOk d \<and> ioOkEntries rest)"

text \<open>
  The tree without its unreadable subtrees: a directory that cannot be listed and holds
  no descriptor becomes an empty directory.
\<close>

fun prune :: "node \<Rightarrow> node"
  and pruneEntries :: "(string \<times> node) list \<Rightarrow> (string \<times> node) list"
where
  "prune (File c) = File c"
| "prune (Dir l w es) =
     (if l then Dir True w (pruneEntries es)
      else if map_of es ''skill.md'' = None then Dir True w [] else Dir False w es)"
| "pruneEntries [] = []"
| "pruneEntries ((n, d) # rest) = (n, prune d) # pruneEntries rest"

text \<open>The category of the source after the directories \<open>cs\<close>, entered from category \<open>c\<close>.\<close>

definition catChain :: "string \<Rightarrow> string list \<Rightarrow> string" where
  "catChain c cs = foldl (\<lambda>k n. if k \<noteq> [] then path_join k n else n) c cs"

text \<open>
  What one call adds to the shared state: the records it appends, the errors it prints
  and, for the loop, the exception that ends it.
\<close>

definition foundIn :: "string \<Rightarrow> string \<Rightarrow> node \<Rightarrow> skill list" where
  "foundIn p c d = skills (scanDirectory p c d \<lparr> skills = [], errors = [] \<rparr>)"

definition reportedIn :: "string \<Rightarrow> string \<Rightarrow> node \<Rightarrow> (string \<times> io_error) list" where
  "reportedIn p c d = errors (scanDirectory p c d \<lparr> skills = [], errors = [] \<rparr>)"

definition foundInEntries :: "string \<Rightarrow> string \<Rightarrow> (string \<times> node) list \<Rightarrow> skill list" where
  "foundInEntries p c es = skills (fst (scanEntries p c es \<lparr> skills = [], errors = [] \<rparr>))"

definition reportedInEntries ::
    "string \<Rightarrow> string \<Rightarrow> (string \<times> node) list \<Rightarrow> (string \<times> io_error) list" where
  "reportedInEntries p c es = errors (fst (scanEntries p c es \<lparr> skills = [], errors = [] \<rparr>))"

definition thrownIn :: "string \<Rightarrow> string \<Rightarrow> (string \<times> node) list \<Rightarrow> io_error option" where
  "thrownIn p c es = snd (scanEntries p c es \<lparr> skills = [], errors = [] \<rparr>)"

section \<open>Properties of the scanner\<close>

text \<open>
  Induction over a directory tree and over the entries of a directory at once.
\<close>

lemma entries_induct_aux:
  assumes nil: "Q []"
    and fi: "\<And>n c rest. Q rest \<Longrightarrow> Q ((n, File c) # rest)"
    and dir: "\<And>n l w es rest. P (Dir l w es) \<Longrightarrow> Q rest \<Longrightarrow> Q ((n, Dir l w es) # rest)"
    and nodes: "\<And>n d. (n, d) \<in> set es \<Longrightarrow> P d"
  shows "Q es"
  using nodes
proof (induction es)
  case Nil
  show ?case by (rule nil)
next
  case (Cons e es)
  obtain n d where e: "e = (n, d)" by (cases e)
  have q: "Q es"
  proof (rule Cons.IH)
    fix n d assume "(n, d) \<in> set es"
    then show "P d" using Cons.prems [of n d] by simp
  qed
  show ?case
  proof (cases d)
    case (File c)
    with e q show ?thesis by (simp add: fi)
  next
    case (Dir l w es')
    have "P d" using Cons.prems [of n d] e by simp
    with e q Dir show ?thesis by (simp add: dir)
  qed
qed

lemma tree_induct:
  assumes fi: "\<And>c. P (File c)"
    and dir: "\<And>l w es. Q es \<Longrightarrow> P (Dir l w es)"
    and nil: "Q []"
    and fileEntry: "\<And>n c rest. Q rest \<Longrightarrow> Q ((n, File c) # rest)"
    and dirEntry: "\<And>n l w es rest. P (Dir l w es) \<Longrightarrow> Q rest \<Longrightarrow> Q ((n, Dir l w es) # rest)"
  shows "P d" and "Q es"
proof -
  have p: "P x" for x
  proof (induction x)
    case (File c)
    show ?case by (rule fi)
  next
    case (Dir l w es')
    have "Q es'"
    proof (rule entries_induct_aux [of Q P, OF nil fileEntry dirEntry])
      fix n d assume "(n, d) \<in> set es'"
      then show "P d" using Dir.IH [of "(n, d)" d] by simp
    qed simp_all
    then show ?case by (rule dir)
  qed
  show "P d" by (rule p)
  show "Q es" by (rule entries_induct_aux [of Q P, OF nil fileEntry dirEntry]) (simp_all add: p)
qed

lemma foundIn_File [simp]: "foundIn p c (File x) = []"
  by (simp add: foundIn_def report_def)

lemma reportedIn_File [simp]: "reportedIn p c (File x) = [(p, ENOTDIR)]"
  by (simp add: reportedIn_def report_def)

lemma foundIn_Dir [simp]:
  "foundIn p c (Dir l w es) = (if l then foundInEntries p c es else [])"
  by (cases "scanEntries p c es \<lparr> skills = [], errors = [] \<rparr>")
    (simp add: foundIn_def foundInEntries_def report_def split: option.split)

lemma reportedIn_Dir [simp]:
  "reportedIn p c (Dir l w es) =
     (if l then reportedInEntries p c es @ (case thrownIn p c es of None \<Rightarrow> [] | Some e \<Rightarrow> [(p, e)])
      else [(p, EACCES)])"
  by (cases "scanEntries p c es \<lparr> skills = [], errors = [] \<rparr>")
    (simp add: reportedIn_def reportedInEntries_def thrownIn_def report_def split: option.split)

lemma foundInEntries_Nil [simp]: "foundInEntries p c [] = []"
  by (simp add: foundInEntries_def)

lemma reportedInEntries_Nil [simp]: "reportedInEntries p c [] = []"
  by (simp add: reportedInEntries_def)

lemma thrownIn_Nil [simp]: "thrownIn p c [] = None"
  by (simp add: thrownIn_def)

lemma foundInEntries_File [simp]:
  "foundInEntries p c ((n, File x) # rest) = foundInEntries p c rest"
  by (simp add: foundInEntries_def)

lemma reportedInEntries_File [simp]:
  "reportedInEntries p c ((n, File x) # rest) = reportedInEntries p c rest"
  by (simp add: reportedInEntries_def)

lemma thrownIn_File [simp]: "thrownIn p c ((n, File x) # rest) = thrownIn p c rest"
  by (simp add: thrownIn_def)

lemma scan_split:
  "\<forall>p c st. scanDirectory p c d st =
      \<lparr> skills = skills st @ foundIn p c d, errors = errors st @ reportedIn p c d \<rparr>"
  "\<forall>p c st. scanEntries p c es st =
      (\<lparr> skills = skills st @ foundInEntries p c es,
         errors = errors st @ reportedInEntries p c es \<rparr>, thrownIn p c es)"
proof (induction d and es rule: tree_induct)
  case (1 x)
  show ?case by (simp add: report_def)
next
  case (2 l w es)
  show ?case
    by (simp add: report_def 2 split: option.split)
next
  case 3
  show ?case by simp
next
  case (4 n x rest)
  show ?case by (simp add: 4)
next
  case (5 n l w es rest)
  have a: "scanEntries p c ((n, Dir l w es) # rest) st =
      (\<lparr> skills = skills st @ foundInEntries p c ((n, Dir l w es) # rest),
         errors = errors st @ reportedInEntries p c ((n, Dir l w es) # rest) \<rparr>,
       thrownIn p c ((n, Dir l w es) # rest))" for p c st
    by (simp add: foundInEntries_def [of p c "(n, Dir l w es) # rest"]
        reportedInEntries_def [of p c "(n, Dir l w es) # rest"]
        thrownIn_def [of p c "(n, Dir l w es) # rest"]
        Let_def push_def 5 del: scanDirectory.simps split: option.split sum.split)
  show ?case using a by blast
qed

lemma foundInEntries_Dir [simp]:
  "foundInEntries p c ((n, Dir l w es) # rest) =
     (case map_of es ''skill.md'' of
        Some d \<Rightarrow> (case readFile d of
                     Inl e \<Rightarrow> []
                   | Inr t \<Rightarrow> skillRecord n c (path_join p n) t # foundInEntries p c rest)
      | None \<Rightarrow> foundIn (path_join p n) (if c \<noteq> [] then path_join c n else n) (Dir l w es)
                 @ foundInEntries p c rest)"
  by (simp add: foundInEntries_def [of p c "(n, Dir l w es) # rest"]
      Let_def push_def scan_split(1) [where d = "Dir l w es"] scan_split(2) [where es = rest]
      del: scanDirectory.simps foundIn_Dir split: option.split sum.split)

lemma thrownIn_Dir [simp]:
  "thrownIn p c ((n, Dir l w es) # rest) =
     (case map_of es ''skill.md'' of
        Some d \<Rightarrow> (case readFile d of Inl e \<Rightarrow> Some e | Inr t \<Rightarrow> thrownIn p c rest)
      | None \<Rightarrow> thrownIn p c rest)"
  by (simp add: thrownIn_def [of p c "(n, Dir l w es) # rest"]
      Let_def push_def scan_split(1) [where d = "Dir l w es"] scan_split(2) [where es = rest]
      del: scanDirectory.simps split: option.split sum.split)

lemma reportedInEntries_Dir [simp]:
  "reportedInEntries p c ((n, Dir l w es) # rest) =
     (case map_of es ''skill.md'' of
        Some d \<Rightarrow> (case readFile d of Inl e \<Rightarrow> [] | Inr t \<Rightarrow> reportedInEntries p c rest)
      | None \<Rightarrow> reportedIn (path_join p n) (if c \<noteq> [] then path_join c n else n) (Dir l w es)
                 @ reportedInEntries p c rest)"
  by (simp add: reportedInEntries_def [of p c "(n, Dir l w es) # rest"]
      Let_def push_def scan_split(1) [where d = "Dir l w es"] scan_split(2) [where es = rest]
      del: scanDirectory.simps reportedIn_Dir split: option.split sum.split)

lemma scanSkills_split:
  "scanSkills p d = \<lparr> skills = foundIn p [] d, errors = reportedIn p [] d \<rparr>"
  by (simp add: scanSkills_def scan_split)

lemma barren_finds_nothing:
  "\<not> skillBearing d \<longrightarrow> (\<forall>p c. foundIn p c d = [])"
  "\<not> anySkillBearing es \<longrightarrow> (\<forall>p c. foundInEntries p c es = [] \<and> thrownIn p c es = None)"
  by (induction d and es rule: tree_induct) auto

lemma barren_reports_nothing:
  "isDirectory d \<and> \<not> skillBearing d \<and> listable d \<longrightarrow> (\<forall>p c. reportedIn p c d = [])"
  "\<not> anySkillBearing es \<and> listableEntries es \<longrightarrow> (\<forall>p c. reportedInEntries p c es = [])"
  by (induction d and es rule: tree_induct) (auto simp: barren_finds_nothing)

lemma catChain_Nil [simp]: "catChain c [] = c"
  by (simp add: catChain_def)

lemma catChain_Cons [simp]:
  "catChain c (n # cs) = catChain (if c \<noteq> [] then path_join c n else n) cs"
  by (simp add: catChain_def)

lemma name_skillRecord [simp]: "name (skillRecord n c p t) = n"
  by (simp add: skillRecord_def)

lemma category_skillRecord [simp]: "category (skillRecord n c p t) = c"
  by (simp add: skillRecord_def)

lemma found_sound:
  "\<forall>p c r. r \<in> set (foundIn p c d) \<longrightarrow>
     (\<exists>cs. (case d of Dir l w es \<Rightarrow> skillAt es cs (name r) | File x \<Rightarrow> False)
        \<and> category r = catChain c cs)"
  "\<forall>p c r. r \<in> set (foundInEntries p c es) \<longrightarrow>
     (\<exists>cs. skillAt es cs (name r) \<and> category r = catChain c cs)"
proof (induction d and es rule: tree_induct)
  case (1 x)
  show ?case by simp
next
  case (2 l w es)
  then show ?case by (auto split: if_splits)
next
  case 3
  show ?case by simp
next
  case (4 n x rest)
  then show ?case by simp
next
  case (5 n l w es rest)
  show ?case
  proof (intro allI impI)
    fix p c r
    assume r: "r \<in> set (foundInEntries p c ((n, Dir l w es) # rest))"
    show "\<exists>cs. skillAt ((n, Dir l w es) # rest) cs (name r) \<and> category r = catChain c cs"
    proof (cases "map_of es ''skill.md''")
      case None
      from r None consider
        "r \<in> set (foundIn (path_join p n) (if c \<noteq> [] then path_join c n else n) (Dir l w es))"
        | "r \<in> set (foundInEntries p c rest)"
        by (auto simp del: foundIn_Dir)
      then show ?thesis
      proof cases
        case 1
        have ih: "\<forall>p c r. r \<in> set (foundIn p c (Dir l w es)) \<longrightarrow>
            (\<exists>cs. skillAt es cs (name r) \<and> category r = catChain c cs)"
          using 5(1) by (simp del: foundIn_Dir)
        from ih 1 obtain cs where "skillAt es cs (name r)"
          and "category r = catChain (if c \<noteq> [] then path_join c n else n) cs"
          by blast
        with None have "skillAt ((n, Dir l w es) # rest) (n # cs) (name r)
            \<and> category r = catChain c (n # cs)"
          by simp
        then show ?thesis by blast
      next
        case 2
        with 5(2) obtain cs where "skillAt rest cs (name r)" and "category r = catChain c cs"
          by blast
        then have "skillAt ((n, Dir l w es) # rest) cs (name r) \<and> category r = catChain c cs"
          by simp
        then show ?thesis by blast
      qed
    next
      case (Some d)
      show ?thesis
      proof (cases "readFile d")
        case (Inl e)
        with r Some show ?thesis by simp
      next
        case (Inr t)
        with r Some consider "r = skillRecord n c (path_join p n) t"
          | "r \<in> set (foundInEntries p c rest)"
          by auto
        then show ?thesis
        proof cases
          case 1
          with Some have "skillAt ((n, Dir l w es) # rest) [] (name r) \<and> category r = catChain c []"
            by simp
          then show ?thesis by blast
        next
          case 2
          with 5(2) obtain cs where "skillAt rest cs (name r)" and "category r = catChain c cs"
            by blast
          then have "skillAt ((n, Dir l w es) # rest) cs (name r) \<and> category r = catChain c cs"
            by simp
          then show ?thesis by blast
        qed
      qed
    qed
  qed
qed

lemma io_ok_no_exception:
  "\<forall>p c. (case d of Dir l w es \<Rightarrow> l \<and> ioOkEntries es | File x \<Rightarrow> False)
      \<longrightarrow> reportedIn p c d = []"
  "ioOkEntries es \<longrightarrow> (\<forall>p c. reportedInEntries p c es = [] \<and> thrownIn p c es = None)"
  by (induction d and es rule: tree_induct) (auto split: option.splits sum.splits)

lemma found_complete:
  "\<forall>p c cs n. (case d of Dir l w es \<Rightarrow> l \<and> ioOkEntries es \<and> skillAt es cs n | File x \<Rightarrow> False)
      \<longrightarrow> (\<exists>r \<in> set (foundIn p c d). name r = n \<and> category r = catChain c cs)"
  "ioOkEntries es \<longrightarrow> (\<forall>p c cs n. skillAt es cs n
      \<longrightarrow> (\<exists>r \<in> set (foundInEntries p c es). name r = n \<and> category r = catChain c cs))"
proof (induction d and es rule: tree_induct)
  case (1 x)
  show ?case by simp
next
  case (2 l w es)
  then show ?case by auto
next
  case 3
  show ?case by simp
next
  case (4 n x rest)
  then show ?case by simp
next
  case (5 m l w es rest)
  show ?case
  proof (intro allI impI)
    fix p c cs n
    assume ok: "ioOkEntries ((m, Dir l w es) # rest)"
      and at: "skillAt ((m, Dir l w es) # rest) cs n"
    from ok have okr: "ioOkEntries rest" by simp
    have later: "\<exists>r \<in> set (foundInEntries p c ((m, Dir l w es) # rest)).
        name r = n \<and> category r = catChain c cs" if "skillAt rest cs n"
    proof -
      from 5(2) okr that obtain r where "r \<in> set (foundInEntries p c rest)"
        and "name r = n \<and> category r = catChain c cs"
        by blast
      moreover have "set (foundInEntries p c rest) \<subseteq> set (foundInEntries p c ((m, Dir l w es) # rest))"
        using ok by (auto simp del: foundIn_Dir split: option.splits sum.splits)
      ultimately show ?thesis by blast
    qed
    show "\<exists>r \<in> set (foundInEntries p c ((m, Dir l w es) # rest)).
        name r = n \<and> category r = catChain c cs"
    proof (cases "skillAt rest cs n")
      case True
      then show ?thesis by (rule later)
    next
      case False
      show ?thesis
      proof (cases cs)
        case Nil
        with at False have mn: "m = n" and d: "map_of es ''skill.md'' \<noteq> None" by auto
        from d obtain x where x: "map_of es ''skill.md'' = Some x" by blast
        with ok obtain t where t: "readFile x = Inr t" by (auto split: sum.splits)
        have "skillRecord m c (path_join p m) t \<in> set (foundInEntries p c ((m, Dir l w es) # rest))"
          using x t by simp
        then show ?thesis using mn Nil
          by (intro bexI [of _ "skillRecord m c (path_join p m) t"]) simp_all
      next
        case (Cons k cs')
        with at False have mk: "m = k" and d: "map_of es ''skill.md'' = None"
          and sub: "skillAt es cs' n" by auto
        from ok d have "l \<and> ioOkEntries es" by simp
        moreover have "\<forall>p c cs n. l \<and> ioOkEntries es \<and> skillAt es cs n \<longrightarrow>
            (\<exists>r \<in> set (foundIn p c (Dir l w es)). name r = n \<and> category r = catChain c cs)"
          using 5(1) by (simp del: foundIn_Dir)
        ultimately obtain r
          where r: "r \<in> set (foundIn (path_join p m) (if c \<noteq> [] then path_join c m else m) (Dir l w es))"
          and nr: "name r = n"
          and cr: "category r = catChain (if c \<noteq> [] then path_join c m else m) cs'"
          using sub by blast
        have "r \<in> set (foundInEntries p c ((m, Dir l w es) # rest))"
          using r d by (simp del: foundIn_Dir)
        moreover have "category r = catChain c cs"
          using cr mk Cons by simp
        ultimately show ?thesis using nr by blast
      qed
    qed
  qed
qed

lemma map_of_pruneEntries:
  "map_of (pruneEntries es) k = map_option prune (map_of es k)"
  by (induction es) auto

lemma readFile_prune [simp]: "readFile (prune d) = readFile d"
  by (cases d) auto

lemma prune_found:
  "\<forall>p c. foundIn p c (prune d) = foundIn p c d"
  "\<forall>p c. foundInEntries p c (pruneEntries es) = foundInEntries p c es
      \<and> thrownIn p c (pruneEntries es) = thrownIn p c es"
proof (induction d and es rule: tree_induct)
  case (1 x)
  show ?case by simp
next
  case (2 l w es)
  then show ?case by simp
next
  case 3
  show ?case by simp
next
  case (4 n x rest)
  then show ?case by simp
next
  case (5 n l w es rest)
  show ?case
  proof (intro allI)
    fix p c
    show "foundInEntries p c (pruneEntries ((n, Dir l w es) # rest))
            = foundInEntries p c ((n, Dir l w es) # rest)
        \<and> thrownIn p c (pruneEntries ((n, Dir l w es) # rest))
            = thrownIn p c ((n, Dir l w es) # rest)"
      using 5 by (auto simp: map_of_pruneEntries split: option.splits sum.splits)
  qed
qed

lemma join_sep_snoc:
  "join_sep d (xs @ [y]) = (if xs = [] then y else join_sep d xs @ d @ y)"
  by (induction d xs rule: join_sep.induct) auto

lemma split_sep_not_Nil [simp]: "split_sep d s \<noteq> []"
  by (induction s) (auto split: list.splits)

lemma split_sep_no_sep: "d \<notin> set s \<Longrightarrow> split_sep d s = [s]"
  by (induction s) auto

lemma split_sep_append: "split_sep d (a @ d # b) = split_sep d a @ split_sep d b"
proof (induction a)
  case Nil
  show ?case by simp
next
  case (Cons c t)
  obtain s ss where "split_sep d t = s # ss"
    using split_sep_not_Nil [of d t] by (cases "split_sep d t") auto
  with Cons show ?case by simp
qed

lemma split_sep_join_sep:
  "xs \<noteq> [] \<Longrightarrow> \<forall>x \<in> set xs. d \<notin> set x \<Longrightarrow> split_sep d (join_sep [d] xs) = xs"
proof (induction "[d]" xs rule: join_sep.induct)
  case 1
  then show ?case by simp
next
  case (2 s)
  then show ?case by (simp add: split_sep_no_sep)
next
  case (3 s t ss)
  then show ?case by (simp add: split_sep_append split_sep_no_sep)
qed

lemma norm_step_valid: "valid_name x \<Longrightarrow> norm_step a acc x = acc @ [x]"
  by (simp add: norm_step_def valid_name_def)

lemma foldl_norm_step_valid:
  "\<forall>x \<in> set xs. valid_name x \<Longrightarrow> foldl (norm_step a) acc xs = acc @ xs"
  by (induction xs arbitrary: acc) (simp_all add: norm_step_valid)

lemma join_sep_valid:
  assumes "xs \<noteq> []" and "\<forall>x \<in> set xs. valid_name x"
  shows "join_sep ''/'' xs \<noteq> []"
    and "hd (join_sep ''/'' xs) \<noteq> CHR ''/''"
    and "last (join_sep ''/'' xs) \<noteq> CHR ''/''"
proof -
  have a: "xs \<noteq> [] \<Longrightarrow> \<forall>x \<in> set xs. valid_name x \<Longrightarrow>
      join_sep ''/'' xs \<noteq> [] \<and> hd (join_sep ''/'' xs) = hd (hd xs)
        \<and> last (join_sep ''/'' xs) = last (last xs)"
  proof (induction "''/''" xs rule: join_sep.induct)
    case 1
    then show ?case by simp
  next
    case (2 s)
    then show ?case by (simp add: valid_name_def)
  next
    case (3 s t ss)
    then show ?case by (simp add: valid_name_def)
  qed
  have h: "hd xs \<in> set xs" and l: "last xs \<in> set xs" using assms(1) by simp_all
  have "hd (hd xs) \<in> set (hd xs)" and "last (last xs) \<in> set (last xs)"
    using assms(2) h l by (simp_all add: valid_name_def)
  moreover have "CHR ''/'' \<notin> set (hd xs)" and "CHR ''/'' \<notin> set (last xs)"
    using assms(2) h l by (simp_all add: valid_name_def)
  ultimately have "hd (hd xs) \<noteq> CHR ''/''" and "last (last xs) \<noteq> CHR ''/''"
    by auto
  with a [OF assms] show "join_sep ''/'' xs \<noteq> []"
    and "hd (join_sep ''/'' xs) \<noteq> CHR ''/''"
    and "last (join_sep ''/'' xs) \<noteq> CHR ''/''"
    by simp_all
qed

lemma path_join_valid:
  assumes pre: "pre \<noteq> []" and v: "\<forall>x \<in> set pre. valid_name x" and n: "valid_name n"
  shows "path_join (join_sep ''/'' pre) n = join_sep ''/'' (pre @ [n])"
proof -
  let ?j = "join_sep ''/'' (pre @ [n])"
  have all: "\<forall>x \<in> set (pre @ [n]). valid_name x" using v n by simp
  have ne: "join_sep ''/'' pre \<noteq> []" using join_sep_valid(1) [OF pre v] .
  have nn: "n \<noteq> []" using n by (simp add: valid_name_def)
  have j: "?j = join_sep ''/'' pre @ ''/'' @ n"
    using pre by (simp add: join_sep_snoc)
  have jne: "?j \<noteq> []" and hd: "hd ?j \<noteq> CHR ''/''" and la: "last ?j \<noteq> CHR ''/''"
    using join_sep_valid [of "pre @ [n]"] all by simp_all
  have noslash: "\<forall>x \<in> set (pre @ [n]). CHR ''/'' \<notin> set x"
    using all by (simp add: valid_name_def)
  have sp: "split_sep CHR ''/'' ?j = pre @ [n]"
    using split_sep_join_sep [of "pre @ [n]" "CHR ''/''"] noslash by simp
  have q: "normalizeString ?j True = ?j"
    by (simp only: normalizeString_def sp foldl_norm_step_valid [OF all] append_Nil)
  have "normalize ?j = ?j"
    using jne hd la by (simp add: normalize_def q Let_def)
  moreover have "path_join (join_sep ''/'' pre) n = normalize ?j"
    using ne nn jne by (simp add: path_join_def j Let_def)
  ultimately show ?thesis by simp
qed

lemma catChain_valid:
  "\<forall>x \<in> set pre. valid_name x \<Longrightarrow> \<forall>x \<in> set cs. valid_name x \<Longrightarrow>
     catChain (join_sep ''/'' pre) cs = join_sep ''/'' (pre @ cs)"
proof (induction cs arbitrary: pre)
  case Nil
  show ?case by simp
next
  case (Cons n cs)
  have step: "(if join_sep ''/'' pre \<noteq> [] then path_join (join_sep ''/'' pre) n else n)
      = join_sep ''/'' (pre @ [n])"
  proof (cases "pre = []")
    case True
    then show ?thesis by simp
  next
    case False
    with Cons.prems show ?thesis
      by (simp add: path_join_valid join_sep_valid(1))
  qed
  have "catChain (join_sep ''/'' pre) (n # cs) = catChain (join_sep ''/'' (pre @ [n])) cs"
    by (simp only: catChain_Cons step)
  also have "\<dots> = join_sep ''/'' ((pre @ [n]) @ cs)"
    using Cons.prems by (intro Cons.IH) simp_all
  finally show ?case by simp
qed

lemma catChain_root:
  "\<forall>x \<in> set cs. valid_name x \<Longrightarrow> catChain [] cs = join_sep ''/'' cs"
  using catChain_valid [of "[]" cs] by simp

lemma skillAt_valid:
  "\<forall>cs n. (case d of Dir l w es \<Rightarrow> validEntryNames es \<and> skillAt es cs n | File x \<Rightarrow> False)
      \<longrightarrow> (\<forall>x \<in> set cs. valid_name x)"
  "validEntryNames es \<longrightarrow> (\<forall>cs n. skillAt es cs n \<longrightarrow> (\<forall>x \<in> set cs. valid_name x))"
proof (induction d and es rule: tree_induct)
  case (5 m l w es rest)
  show ?case
  proof (intro impI allI)
    fix cs n
    assume v: "validEntryNames ((m, Dir l w es) # rest)" and at: "skillAt ((m, Dir l w es) # rest) cs n"
    show "\<forall>x \<in> set cs. valid_name x"
    proof (cases "skillAt rest cs n")
      case True
      with 5(2) v show ?thesis by auto
    next
      case False
      show ?thesis
      proof (cases cs)
        case Nil
        then show ?thesis by simp
      next
        case (Cons k cs')
        with at False have "m = k" and "skillAt es cs' n" by auto
        moreover from v have "valid_name m" and "validEntryNames es" by simp_all
        ultimately show ?thesis using 5(1) Cons by auto
      qed
    qed
  qed
qed auto

lemma scanEntries_skip_file:
  "scanEntries p c (es1 @ (n, File x) # es2) st = scanEntries p c (es1 @ es2) st"
proof (induction es1 arbitrary: st c)
  case Nil
  show ?case by simp
next
  case (Cons e es1)
  obtain m d where e: "e = (m, d)" by (cases e)
  show ?case
  proof (cases d)
    case (File y)
    with e show ?thesis by (simp add: Cons.IH)
  next
    case (Dir l w es)
    with e show ?thesis
      by (simp add: Cons.IH Let_def del: scanDirectory.simps split: option.split sum.split)
  qed
qed

text \<open>
  C1, as the specification states it: a repository root that directly contains
  \<open>skill.md\<close> yields exactly one record, the root itself. The scanner never looks for a
  descriptor in the directory it is called on, only in that directory's subdirectories:
  a root that holds nothing but a descriptor yields no record at all.
\<close>

theorem root_descriptor_counterexample:
  "length (skills (scanSkills ''/repo'' (Dir True True [(''skill.md'', File (Some ''name: Root''))]))) \<noteq> 1"
  by (simp add: scanSkills_def)

text \<open>
  C1, amended: the descriptor file of the root is ignored like every other entry that
  is not a directory. The scan of a root with a descriptor file is the scan of the same
  root without it, and a root that holds only the descriptor yields no record.
\<close>

theorem root_descriptor_is_ignored:
  "scanSkills p (Dir l w (es1 @ (''skill.md'', File t) # es2)) = scanSkills p (Dir l w (es1 @ es2))
   \<and> skills (scanSkills p (Dir True True [(''skill.md'', File t)])) = []"
  by (simp add: scanSkills_def scanEntries_skip_file)

lemma truncateDescription_length: "length (truncateDescription d) \<le> 50"
  by (simp add: truncateDescription_def)

lemma found_description_length:
  "\<forall>p c r. r \<in> set (foundIn p c d) \<longrightarrow> length (description r) \<le> 50"
  "\<forall>p c r. r \<in> set (foundInEntries p c es) \<longrightarrow> length (description r) \<le> 50"
proof (induction d and es rule: tree_induct)
  case (5 n l w es rest)
  show ?case
  proof (intro allI impI)
    fix p c r
    assume r: "r \<in> set (foundInEntries p c ((n, Dir l w es) # rest))"
    have ih: "\<forall>p c r. r \<in> set (foundIn p c (Dir l w es)) \<longrightarrow> length (description r) \<le> 50"
      using 5(1) by (simp del: foundIn_Dir)
    from r consider t where "r = skillRecord n c (path_join p n) t"
      | "r \<in> set (foundIn (path_join p n) (if c \<noteq> [] then path_join c n else n) (Dir l w es))"
      | "r \<in> set (foundInEntries p c rest)"
      by (auto simp del: foundIn_Dir split: option.splits sum.splits)
    then show "length (description r) \<le> 50"
    proof cases
      case 1
      then show ?thesis by (simp add: skillRecord_def truncateDescription_length)
    next
      case 2
      with ih show ?thesis by blast
    next
      case 3
      with 5(2) show ?thesis by blast
    qed
  qed
qed auto

text \<open>
  C4: a description longer than 50 characters is stored as its first 47 characters
  followed by three dots, 50 characters in all; a description of at most 50
  characters is stored as it is. No record of a scan has a longer description.
\<close>

theorem description_truncation:
  "(50 < length (extractDescription t) \<longrightarrow>
      description (skillRecord n c p t) = take 47 (extractDescription t) @ ''...'' \<and>
      length (description (skillRecord n c p t)) = 50) \<and>
   (length (extractDescription t) \<le> 50 \<longrightarrow>
      description (skillRecord n c p t) = extractDescription t) \<and>
   (\<forall>r \<in> set (skills (scanSkills rp d)). length (description r) \<le> 50)"
proof (intro conjI impI ballI)
  fix r assume "r \<in> set (skills (scanSkills rp d))"
  then have "r \<in> set (foundIn rp [] d)"
    by (simp only: scanSkills_split scan_state.simps)
  with found_description_length(1) [of d] show "length (description r) \<le> 50" by blast
qed (simp_all add: skillRecord_def truncateDescription_def)

text \<open>
  C4 at a description of 51 characters, which is cut, at one of 50 characters, which
  is kept, and at the record a scan makes for the first.
\<close>

theorem description_truncation_witness:
  "50 < length (extractDescription ''description: 012345678901234567890123456789012345678901234567890'')
   \<and> description (skillRecord ''s'' [] ''/r/s'' ''description: 012345678901234567890123456789012345678901234567890'')
       = ''01234567890123456789012345678901234567890123456...''
   \<and> length (description (skillRecord ''s'' [] ''/r/s'' ''description: 012345678901234567890123456789012345678901234567890'')) = 50
   \<and> length (extractDescription ''description: 01234567890123456789012345678901234567890123456789'') \<le> 50
   \<and> description (skillRecord ''s'' [] ''/r/s'' ''description: 01234567890123456789012345678901234567890123456789'') = ''01234567890123456789012345678901234567890123456789''
   \<and> \<lparr> name = ''s'', displayName = ''s'',
        description = ''01234567890123456789012345678901234567890123456...'',
        category = [], path = ''/r/s'' \<rparr>
      \<in> set (skills (scanSkills ''/r''
          (Dir True True [(''s'', Dir True True [(''skill.md'', File (Some ''description: 012345678901234567890123456789012345678901234567890''))])])))
   \<and> length (description \<lparr> name = ''s'', displayName = ''s'',
        description = ''01234567890123456789012345678901234567890123456...'',
        category = [], path = ''/r/s'' \<rparr>) \<le> 50"
proof -
  have e51: "extractDescription ''description: 012345678901234567890123456789012345678901234567890'' = ''012345678901234567890123456789012345678901234567890''"
    by code_simp
  have e50: "extractDescription ''description: 01234567890123456789012345678901234567890123456789'' = ''01234567890123456789012345678901234567890123456789''"
    by code_simp
  have l51: "50 < length (extractDescription ''description: 012345678901234567890123456789012345678901234567890'')"
    unfolding e51 by simp
  have l50: "length (extractDescription ''description: 01234567890123456789012345678901234567890123456789'') \<le> 50"
    unfolding e50 by simp
  from description_truncation [of "''description: 012345678901234567890123456789012345678901234567890''" "''s''" "[]" "''/r/s''"] l51
  have a: "description (skillRecord ''s'' [] ''/r/s'' ''description: 012345678901234567890123456789012345678901234567890'')
             = take 47 (extractDescription ''description: 012345678901234567890123456789012345678901234567890'') @ ''...''"
    and b: "length (description (skillRecord ''s'' [] ''/r/s'' ''description: 012345678901234567890123456789012345678901234567890'')) = 50"
    by blast+
  from description_truncation [of "''description: 01234567890123456789012345678901234567890123456789''" "''s''" "[]" "''/r/s''"] l50
  have c: "description (skillRecord ''s'' [] ''/r/s'' ''description: 01234567890123456789012345678901234567890123456789'')
             = extractDescription ''description: 01234567890123456789012345678901234567890123456789''"
    by blast
  from a have a': "description (skillRecord ''s'' [] ''/r/s'' ''description: 012345678901234567890123456789012345678901234567890'')
             = ''01234567890123456789012345678901234567890123456...''"
    unfolding e51 by simp
  from c have c': "description (skillRecord ''s'' [] ''/r/s'' ''description: 01234567890123456789012345678901234567890123456789'') = ''01234567890123456789012345678901234567890123456789''"
    unfolding e50 .
  let ?r = "\<lparr> name = ''s'', displayName = ''s'',
        description = ''01234567890123456789012345678901234567890123456...'',
        category = [], path = ''/r/s'' \<rparr>"
  let ?d = "Dir True True [(''s'', Dir True True [(''skill.md'', File (Some ''description: 012345678901234567890123456789012345678901234567890''))])]"
  have mem: "?r \<in> set (skills (scanSkills ''/r'' ?d))"
    by code_simp
  from description_truncation [where rp = "''/r''" and d = ?d] mem
  have len: "length (description ?r) \<le> 50"
    by blast
  from l51 a' b l50 c' mem len show ?thesis by blast
qed

text \<open>
  Where every field has its value on its own line the expressions work by lines: the
  first of two \<open>name:\<close> lines gives the value, and a keyword inside a line is not
  matched.
\<close>

lemma name_field_examples:
  "nameMatch (''name: first'' @ [CHR 0x0A] @ ''name: second'') = Some ''first''
   \<and> nameMatch ''The name: of the rose'' = None
   \<and> nameMatch (''# Title'' @ [CHR 0x0A] @ ''#  name:  Lint  '' @ [CHR 0x0D, CHR 0x0A] @ ''text'') = Some ''Lint  ''
   \<and> descMatch (''name: x'' @ [CHR 0x0A] @ ''description: what it does'') = Some ''what it does''"
  by code_simp

text \<open>
  C9: the specification has the value of a field come from the first line that begins
  with the keyword and a colon, and from that line only. In the expression of the
  source the \<open>\s*\<close> after the colon also runs over line terminators: when nothing but
  white space follows \<open>name:\<close> on its line, the group captures the next line that is not
  blank. Here the display name of the skill becomes the text of its description line.
\<close>

theorem name_field_takes_next_line:
  "nameMatch (''name:'' @ [CHR 0x0A] @ ''description: A tool'') = Some ''description: A tool''
   \<and> displayName (skillRecord ''foo'' [] ''/r/foo'' (''name:'' @ [CHR 0x0A] @ ''description: A tool''))
       = ''description: A tool''"
  by code_simp

text \<open>
  C2, as the specification states it: a directory that holds \<open>skill.md\<close> is recorded
  as a skill, and a directory with neither a descriptor nor a skill below it gives no
  error. In the first scan the entry \<open>skill.md\<close> of \<open>a\<close> is a directory: reading it
  throws in the loop over the entries of the root, so \<open>a\<close> is not recorded, the
  skill \<open>b\<close> listed after \<open>a\<close> is not scanned, and the error is printed for the
  root. In the second scan \<open>docs\<close> holds no descriptor and cannot be listed: the
  error is printed for \<open>docs\<close>.
\<close>

theorem unreadable_descriptor_counterexample:
  "map_of [(''skill.md'', Dir True True [])] ''skill.md'' \<noteq> None
   \<and> map_of [(''skill.md'', File (Some ''name: B''))] ''skill.md'' \<noteq> None
   \<and> scanSkills ''/r'' (Dir True True
        [(''a'', Dir True True [(''skill.md'', Dir True True [])]),
         (''b'', Dir True True [(''skill.md'', File (Some ''name: B''))])])
      = \<lparr> skills = [], errors = [(''/r'', EISDIR)] \<rparr>
   \<and> map_of [(''notes.txt'', File (Some ''notes''))] ''skill.md'' = None
   \<and> \<not> skillBearing (Dir False True [(''notes.txt'', File (Some ''notes''))])
   \<and> scanSkills ''/r'' (Dir True True
        [(''docs'', Dir False True [(''notes.txt'', File (Some ''notes''))])])
      = \<lparr> skills = [], errors = [(''/r/docs'', EACCES)] \<rparr>"
  by code_simp

text \<open>
  C2, amended: every directory the loop meets is handled by what it holds. With a
  descriptor that is a file and can be read it is recorded as one skill and nothing
  below it is scanned: the result is that of a directory holding the descriptor alone.
  Without a descriptor it is scanned as a category. A directory without a descriptor
  and without a skill anywhere below it adds no record, and when it can be listed
  throughout it leaves the state as it was: no record and no error. For the scan as a
  whole: every record is a directory with a descriptor that is reached through
  directories without one, with the category the scan built on the way, and when no
  input or output fails every such directory has its record and nothing is printed.
\<close>

theorem skill_or_category:
  "(map_of es ''skill.md'' = Some (File (Some t)) \<longrightarrow>
      scanEntries p c ((n, Dir l w es) # rest) st
        = scanEntries p c rest (push (skillRecord n c (path_join p n) t) st)
      \<and> scanEntries p c ((n, Dir l w es) # rest) st
        = scanEntries p c ((n, Dir True True [(''skill.md'', File (Some t))]) # rest) st)
   \<and> (map_of es ''skill.md'' = None \<longrightarrow>
      scanEntries p c ((n, Dir l w es) # rest) st
        = scanEntries p c rest
            (scanDirectory (path_join p n) (if c \<noteq> [] then path_join c n else n) (Dir l w es) st))
   \<and> (\<not> skillBearing (Dir l w es) \<longrightarrow>
      skills (scanDirectory q k (Dir l w es) st) = skills st)
   \<and> (\<not> skillBearing (Dir l w es) \<and> listable (Dir l w es) \<longrightarrow>
      scanDirectory q k (Dir l w es) st = st)
   \<and> (\<forall>r \<in> set (skills (scanSkills rp (Dir rl rw res))).
        \<exists>cs. skillAt res cs (name r) \<and> category r = catChain [] cs)
   \<and> (rl \<and> ioOkEntries res \<longrightarrow>
        errors (scanSkills rp (Dir rl rw res)) = []
        \<and> (\<forall>cs m. skillAt res cs m \<longrightarrow>
              (\<exists>r \<in> set (skills (scanSkills rp (Dir rl rw res))).
                 name r = m \<and> category r = catChain [] cs)))"
proof (intro conjI impI ballI allI)
  assume "map_of es ''skill.md'' = Some (File (Some t))"
  then show "scanEntries p c ((n, Dir l w es) # rest) st
      = scanEntries p c rest (push (skillRecord n c (path_join p n) t) st)"
    by simp
  then show "scanEntries p c ((n, Dir l w es) # rest) st
      = scanEntries p c ((n, Dir True True [(''skill.md'', File (Some t))]) # rest) st"
    by simp
next
  assume "map_of es ''skill.md'' = None"
  then show "scanEntries p c ((n, Dir l w es) # rest) st
      = scanEntries p c rest
          (scanDirectory (path_join p n) (if c \<noteq> [] then path_join c n else n) (Dir l w es) st)"
    by (simp del: scanDirectory.simps)
next
  assume "\<not> skillBearing (Dir l w es)"
  then have "foundIn q k (Dir l w es) = []"
    using barren_finds_nothing(1) [of "Dir l w es"] by blast
  then show "skills (scanDirectory q k (Dir l w es) st) = skills st"
    using scan_split(1) [of "Dir l w es"] by simp
next
  assume b: "\<not> skillBearing (Dir l w es) \<and> listable (Dir l w es)"
  then have "foundIn q k (Dir l w es) = []"
    using barren_finds_nothing(1) [of "Dir l w es"] by blast
  moreover have "reportedIn q k (Dir l w es) = []"
    using b barren_reports_nothing(1) [of "Dir l w es"] isDirectory.simps(1) by blast
  ultimately show "scanDirectory q k (Dir l w es) st = st"
    using scan_split(1) [of "Dir l w es"] by simp
next
  fix r
  assume "r \<in> set (skills (scanSkills rp (Dir rl rw res)))"
  then have "r \<in> set (foundIn rp [] (Dir rl rw res))"
    by (simp only: scanSkills_split scan_state.simps)
  moreover have "\<forall>p c r. r \<in> set (foundIn p c (Dir rl rw res)) \<longrightarrow>
      (\<exists>cs. skillAt res cs (name r) \<and> category r = catChain c cs)"
    using found_sound(1) [of "Dir rl rw res"] by (simp del: foundIn_Dir)
  ultimately show "\<exists>cs. skillAt res cs (name r) \<and> category r = catChain [] cs"
    by blast
next
  assume ok: "rl \<and> ioOkEntries res"
  have "\<forall>p c. rl \<and> ioOkEntries res \<longrightarrow> reportedIn p c (Dir rl rw res) = []"
    using io_ok_no_exception(1) [of "Dir rl rw res"] by (simp del: reportedIn_Dir)
  with ok have "reportedIn rp [] (Dir rl rw res) = []" by blast
  then show "errors (scanSkills rp (Dir rl rw res)) = []"
    by (simp only: scanSkills_split scan_state.simps)
next
  fix cs m
  assume ok: "rl \<and> ioOkEntries res" and at: "skillAt res cs m"
  have "\<forall>p c cs n. rl \<and> ioOkEntries res \<and> skillAt res cs n \<longrightarrow>
      (\<exists>r \<in> set (foundIn p c (Dir rl rw res)). name r = n \<and> category r = catChain c cs)"
    using found_complete(1) [of "Dir rl rw res"] by (simp del: foundIn_Dir)
  with ok at have "\<exists>r \<in> set (foundIn rp [] (Dir rl rw res)). name r = m \<and> category r = catChain [] cs"
    by blast
  then show "\<exists>r \<in> set (skills (scanSkills rp (Dir rl rw res))).
      name r = m \<and> category r = catChain [] cs"
    by (simp only: scanSkills_split scan_state.simps)
qed

text \<open>
  C2 at a skill directory with a nested skill below it, at a category directory, at a
  directory that holds only documents, and at the scan of a root with one category.
\<close>

theorem skill_or_category_witness:
  "map_of [(''skill.md'', File (Some ''name: X'')),
           (''sub'', Dir True True [(''inner'', Dir True True [(''skill.md'', File (Some []))])])]
      ''skill.md'' = Some (File (Some ''name: X''))
   \<and> scanEntries ''/r'' [] [(''s'', Dir True True [(''skill.md'', File (Some ''name: X'')),
           (''sub'', Dir True True [(''inner'', Dir True True [(''skill.md'', File (Some []))])])])]
        \<lparr> skills = [], errors = [] \<rparr>
      = (\<lparr> skills = [\<lparr> name = ''s'', displayName = ''X'', description = ''No description'',
                       category = [], path = ''/r/s'' \<rparr>], errors = [] \<rparr>, None)
   \<and> map_of [(''x'', Dir True True [(''skill.md'', File (Some []))])] ''skill.md'' = None
   \<and> scanEntries ''/r'' ''A'' [(''B'', Dir True True [(''x'', Dir True True [(''skill.md'', File (Some []))])])]
        \<lparr> skills = [], errors = [] \<rparr>
      = (scanDirectory ''/r/B'' ''A/B'' (Dir True True [(''x'', Dir True True [(''skill.md'', File (Some []))])])
          \<lparr> skills = [], errors = [] \<rparr>, None)
   \<and> \<not> skillBearing (Dir True True [(''docs'', Dir True True [(''notes.txt'', File None)])])
   \<and> listable (Dir True True [(''docs'', Dir True True [(''notes.txt'', File None)])])
   \<and> scanDirectory ''/r/e'' ''e'' (Dir True True [(''docs'', Dir True True [(''notes.txt'', File None)])])
        \<lparr> skills = [], errors = [] \<rparr> = \<lparr> skills = [], errors = [] \<rparr>
   \<and> \<not> skillBearing (Dir False True [(''notes.txt'', File None)])
   \<and> skills (scanDirectory ''/r/e'' ''e'' (Dir False True [(''notes.txt'', File None)])
        \<lparr> skills = [], errors = [] \<rparr>) = []
   \<and> ioOkEntries [(''A'', Dir True True [(''x'', Dir True True [(''skill.md'', File (Some []))])])]
   \<and> skillAt [(''A'', Dir True True [(''x'', Dir True True [(''skill.md'', File (Some []))])])] [''A''] ''x''
   \<and> errors (scanSkills ''/r'' (Dir True True
        [(''A'', Dir True True [(''x'', Dir True True [(''skill.md'', File (Some []))])])])) = []
   \<and> (\<exists>r \<in> set (skills (scanSkills ''/r'' (Dir True True
        [(''A'', Dir True True [(''x'', Dir True True [(''skill.md'', File (Some []))])])]))).
        name r = ''x'' \<and> category r = ''A'')"
proof -
  let ?s0 = "\<lparr> skills = [], errors = [] \<rparr>"
  let ?es1 = "[(''skill.md'', File (Some ''name: X'')),
           (''sub'', Dir True True [(''inner'', Dir True True [(''skill.md'', File (Some []))])])]"
  let ?es2 = "[(''x'', Dir True True [(''skill.md'', File (Some []))])]"
  let ?d3 = "Dir True True [(''docs'', Dir True True [(''notes.txt'', File None)])]"
  have h1: "map_of ?es1 ''skill.md'' = Some (File (Some ''name: X''))" by simp
  have h2: "map_of ?es2 ''skill.md'' = None" by simp
  have h3: "\<not> skillBearing ?d3" and h4: "listable ?d3" by simp_all
  have r: "skillRecord ''s'' [] (path_join ''/r'' ''s'') ''name: X''
      = \<lparr> name = ''s'', displayName = ''X'', description = ''No description'',
          category = [], path = ''/r/s'' \<rparr>"
    by code_simp
  have pj: "path_join ''/r'' ''B'' = ''/r/B''" "path_join ''A'' ''B'' = ''A/B''"
    by code_simp+
  from skill_or_category [where es = ?es1 and t = "''name: X''" and p = "''/r''" and c = "[]"
      and n = "''s''" and l = True and rest = "[]" and st = ?s0] h1
  have "scanEntries ''/r'' [] [(''s'', Dir True True ?es1)] ?s0
      = scanEntries ''/r'' [] [] (push (skillRecord ''s'' [] (path_join ''/r'' ''s'') ''name: X'') ?s0)"
    by blast
  then have a: "scanEntries ''/r'' [] [(''s'', Dir True True ?es1)] ?s0
      = (\<lparr> skills = [\<lparr> name = ''s'', displayName = ''X'', description = ''No description'',
                       category = [], path = ''/r/s'' \<rparr>], errors = [] \<rparr>, None)"
    by (simp only: r scanEntries.simps(3) push_def) simp
  from skill_or_category [where es = ?es2 and p = "''/r''" and c = "''A''"
      and n = "''B''" and l = True and rest = "[]" and st = ?s0] h2
  have "scanEntries ''/r'' ''A'' [(''B'', Dir True True ?es2)] ?s0
      = scanEntries ''/r'' ''A'' []
          (scanDirectory (path_join ''/r'' ''B'') (if ''A'' \<noteq> [] then path_join ''A'' ''B'' else ''B'')
             (Dir True True ?es2) ?s0)"
    by blast
  then have b: "scanEntries ''/r'' ''A'' [(''B'', Dir True True ?es2)] ?s0
      = (scanDirectory ''/r/B'' ''A/B'' (Dir True True ?es2) ?s0, None)"
    by (simp only: pj scanEntries.simps(3)) simp
  from skill_or_category [where l = True
      and es = "[(''docs'', Dir True True [(''notes.txt'', File None)])]"
      and st = ?s0 and q = "''/r/e''" and k = "''e''"] h3 h4
  have c: "scanDirectory ''/r/e'' ''e'' ?d3 ?s0 = ?s0"
    by blast
  have h7: "\<not> skillBearing (Dir False True [(''notes.txt'', File None)])" by simp
  from skill_or_category [where l = False and w = True
      and es = "[(''notes.txt'', File None)]"
      and st = ?s0 and q = "''/r/e''" and k = "''e''"] h7
  have "skills (scanDirectory ''/r/e'' ''e'' (Dir False True [(''notes.txt'', File None)]) ?s0)
      = skills ?s0"
    by blast
  then have c': "skills (scanDirectory ''/r/e'' ''e'' (Dir False True [(''notes.txt'', File None)]) ?s0)
      = []"
    by (simp only: scan_state.simps)
  let ?res = "[(''A'', Dir True True ?es2)]"
  have h5: "ioOkEntries ?res" and h6: "skillAt ?res [''A''] ''x''" by simp_all
  have cc: "catChain [] [''A''] = ''A''" by simp
  from skill_or_category [where rl = True and res = ?res and rp = "''/r''"] h5 h6
  have d: "errors (scanSkills ''/r'' (Dir True True ?res)) = []"
    and "\<exists>r \<in> set (skills (scanSkills ''/r'' (Dir True True ?res))).
        name r = ''x'' \<and> category r = catChain [] [''A'']"
    by blast+
  then have e: "\<exists>r \<in> set (skills (scanSkills ''/r'' (Dir True True ?res))).
        name r = ''x'' \<and> category r = ''A''"
    by (simp only: cc)
  from h1 a h2 b h3 h4 c h7 c' h5 h6 d e show ?thesis by blast
qed

text \<open>
  C3: every record of a scan belongs to a skill directory reached from the root through
  category directories \<open>cs\<close>, and its category is the names \<open>cs\<close> joined with
  \<open>/\<close>, empty exactly when the skill lies directly in the root. When no input or
  output fails, every skill directory reached this way has such a record. The names
  are those \<open>readdir\<close> can return.
\<close>

theorem category_is_joined_path:
  assumes "validEntryNames es"
  shows "(\<forall>r \<in> set (skills (scanSkills p (Dir l w es))).
            \<exists>cs. skillAt es cs (name r) \<and> category r = join_sep ''/'' cs
              \<and> (category r = [] \<longleftrightarrow> cs = []))
     \<and> (l \<and> ioOkEntries es \<longrightarrow>
          (\<forall>cs n. skillAt es cs n \<longrightarrow>
             (\<exists>r \<in> set (skills (scanSkills p (Dir l w es))).
                name r = n \<and> category r = join_sep ''/'' cs)))"
proof (intro conjI ballI impI allI)
  fix r
  assume "r \<in> set (skills (scanSkills p (Dir l w es)))"
  then have "r \<in> set (foundIn p [] (Dir l w es))"
    by (simp only: scanSkills_split scan_state.simps)
  moreover have "\<forall>p c r. r \<in> set (foundIn p c (Dir l w es)) \<longrightarrow>
      (\<exists>cs. skillAt es cs (name r) \<and> category r = catChain c cs)"
    using found_sound(1) [of "Dir l w es"] by (simp del: foundIn_Dir)
  ultimately obtain cs
    where at: "skillAt es cs (name r)" and cat: "category r = catChain [] cs"
    by blast
  have v: "\<forall>x \<in> set cs. valid_name x"
    using skillAt_valid(2) [of es] assms at by blast
  have j: "category r = join_sep ''/'' cs"
    using cat catChain_root [OF v] by simp
  have "join_sep ''/'' cs = [] \<longleftrightarrow> cs = []"
    using join_sep_valid(1) [of cs] v by auto
  with at j show "\<exists>cs. skillAt es cs (name r) \<and> category r = join_sep ''/'' cs
      \<and> (category r = [] \<longleftrightarrow> cs = [])"
    by auto
next
  fix cs n
  assume ok: "l \<and> ioOkEntries es" and at: "skillAt es cs n"
  have v: "\<forall>x \<in> set cs. valid_name x"
    using skillAt_valid(2) [of es] assms at by blast
  have "\<forall>p c cs n. l \<and> ioOkEntries es \<and> skillAt es cs n \<longrightarrow>
      (\<exists>r \<in> set (foundIn p c (Dir l w es)). name r = n \<and> category r = catChain c cs)"
    using found_complete(1) [of "Dir l w es"] by (simp del: foundIn_Dir)
  with ok at obtain r
    where "r \<in> set (foundIn p [] (Dir l w es))" and "name r = n" and "category r = catChain [] cs"
    by blast
  then show "\<exists>r \<in> set (skills (scanSkills p (Dir l w es))).
      name r = n \<and> category r = join_sep ''/'' cs"
    using catChain_root [OF v] by (auto simp only: scanSkills_split scan_state.simps)
qed

text \<open>
  C3 at the nesting \<open>A/B/skillX\<close>, whose record has the category \<open>A/B\<close>, and at a
  skill directly in the root, whose category is empty.
\<close>

theorem category_is_joined_path_witness:
  "validEntryNames
     [(''A'', Dir True True [(''B'', Dir True True [(''skillX'', Dir True True [(''skill.md'', File (Some ''name: X''))])])]),
      (''top'', Dir True True [(''skill.md'', File (Some []))])]
   \<and> ioOkEntries
     [(''A'', Dir True True [(''B'', Dir True True [(''skillX'', Dir True True [(''skill.md'', File (Some ''name: X''))])])]),
      (''top'', Dir True True [(''skill.md'', File (Some []))])]
   \<and> skillAt
     [(''A'', Dir True True [(''B'', Dir True True [(''skillX'', Dir True True [(''skill.md'', File (Some ''name: X''))])])]),
      (''top'', Dir True True [(''skill.md'', File (Some []))])] [''A'', ''B''] ''skillX''
   \<and> (\<exists>r \<in> set (skills (scanSkills ''/repo'' (Dir True True
     [(''A'', Dir True True [(''B'', Dir True True [(''skillX'', Dir True True [(''skill.md'', File (Some ''name: X''))])])]),
      (''top'', Dir True True [(''skill.md'', File (Some []))])]))).
        name r = ''skillX'' \<and> category r = ''A/B'')
   \<and> \<lparr> name = ''top'', displayName = ''top'', description = ''No description'',
        category = [], path = ''/repo/top'' \<rparr>
      \<in> set (skills (scanSkills ''/repo'' (Dir True True
     [(''A'', Dir True True [(''B'', Dir True True [(''skillX'', Dir True True [(''skill.md'', File (Some ''name: X''))])])]),
      (''top'', Dir True True [(''skill.md'', File (Some []))])])))
   \<and> (\<exists>cs. skillAt
     [(''A'', Dir True True [(''B'', Dir True True [(''skillX'', Dir True True [(''skill.md'', File (Some ''name: X''))])])]),
      (''top'', Dir True True [(''skill.md'', File (Some []))])] cs ''top'' \<and> [] = join_sep ''/'' cs \<and> cs = [])"
proof -
  let ?es = "[(''A'', Dir True True [(''B'', Dir True True [(''skillX'', Dir True True [(''skill.md'', File (Some ''name: X''))])])]),
      (''top'', Dir True True [(''skill.md'', File (Some []))])]"
  let ?top = "\<lparr> name = ''top'', displayName = ''top'', description = ''No description'',
        category = [], path = ''/repo/top'' \<rparr>"
  have v: "validEntryNames ?es" by (simp add: valid_name_def)
  have ok: "ioOkEntries ?es" by simp
  have at: "skillAt ?es [''A'', ''B''] ''skillX''" by simp
  have j: "join_sep ''/'' [''A'', ''B''] = ''A/B''" by simp
  have mem: "?top \<in> set (skills (scanSkills ''/repo'' (Dir True True ?es)))"
    by code_simp
  note inst = category_is_joined_path [OF v, of "''/repo''" True]
  from inst ok at have "\<exists>r \<in> set (skills (scanSkills ''/repo'' (Dir True True ?es))).
      name r = ''skillX'' \<and> category r = join_sep ''/'' [''A'', ''B'']"
    by blast
  then have a: "\<exists>r \<in> set (skills (scanSkills ''/repo'' (Dir True True ?es))).
      name r = ''skillX'' \<and> category r = ''A/B''"
    by (simp only: j)
  from inst mem have "\<exists>cs. skillAt ?es cs (name ?top) \<and> category ?top = join_sep ''/'' cs
      \<and> (category ?top = [] \<longleftrightarrow> cs = [])"
    by blast
  then have b: "\<exists>cs. skillAt ?es cs ''top'' \<and> [] = join_sep ''/'' cs \<and> cs = []"
    by simp
  from v ok at a mem b show ?thesis by blast
qed

text \<open>
  C8: a directory that cannot be listed adds no record, the failure is printed, and the
  loop of the parent goes on with the next entry. The records of a whole scan are those
  of the tree in which every such directory is empty.
\<close>

theorem unreadable_subtree_is_skipped:
  "scanDirectory p c (Dir False w es) st = report p EACCES st
   \<and> skills (report p EACCES st) = skills st
   \<and> (map_of es ''skill.md'' = None \<longrightarrow>
        scanEntries p c ((n, Dir False w es) # rest) st
          = scanEntries p c rest (report (path_join p n) EACCES st))
   \<and> skills (scanSkills p d) = skills (scanSkills p (prune d))"
proof (intro conjI impI)
  show "scanDirectory p c (Dir False w es) st = report p EACCES st" by simp
  show "skills (report p EACCES st) = skills st" by (simp add: report_def)
  show "skills (scanSkills p d) = skills (scanSkills p (prune d))"
    using prune_found(1) [of d] by (simp only: scanSkills_split scan_state.simps)
next
  assume "map_of es ''skill.md'' = None"
  then show "scanEntries p c ((n, Dir False w es) # rest) st
      = scanEntries p c rest (report (path_join p n) EACCES st)"
    by simp
qed

text \<open>
  C8 at a root with a directory that cannot be listed, followed by a skill: the skill
  is found and the failure is printed.
\<close>

theorem unreadable_subtree_is_skipped_witness:
  "map_of [(''hidden'', Dir True True [(''skill.md'', File (Some []))])] ''skill.md'' = None
   \<and> scanSkills ''/repo''
        (Dir True True [(''locked'', Dir False True [(''hidden'', Dir True True [(''skill.md'', File (Some []))])]),
                   (''tool'', Dir True True [(''skill.md'', File (Some ''name: Tool''))])])
      = \<lparr> skills = [\<lparr> name = ''tool'', displayName = ''Tool'', description = ''No description'',
                       category = [], path = ''/repo/tool'' \<rparr>],
          errors = [(''/repo/locked'', EACCES)] \<rparr>
   \<and> scanEntries ''/repo'' []
        [(''locked'', Dir False True [(''hidden'', Dir True True [(''skill.md'', File (Some []))])]),
         (''tool'', Dir True True [(''skill.md'', File (Some ''name: Tool''))])]
        \<lparr> skills = [], errors = [] \<rparr>
      = scanEntries ''/repo'' [] [(''tool'', Dir True True [(''skill.md'', File (Some ''name: Tool''))])]
          (report (path_join ''/repo'' ''locked'') EACCES \<lparr> skills = [], errors = [] \<rparr>)"
proof -
  let ?es = "[(''hidden'', Dir True True [(''skill.md'', File (Some []))])]"
  let ?rest = "[(''tool'', Dir True True [(''skill.md'', File (Some ''name: Tool''))])]"
  have h: "map_of ?es ''skill.md'' = None" by simp
  have e: "scanSkills ''/repo'' (Dir True True ((''locked'', Dir False True ?es) # ?rest))
      = \<lparr> skills = [\<lparr> name = ''tool'', displayName = ''Tool'', description = ''No description'',
                       category = [], path = ''/repo/tool'' \<rparr>],
          errors = [(''/repo/locked'', EACCES)] \<rparr>"
    by code_simp
  from unreadable_subtree_is_skipped [where es = ?es and p = "''/repo''" and c = "[]"
      and n = "''locked''" and rest = ?rest and st = "\<lparr> skills = [], errors = [] \<rparr>"] h
  have "scanEntries ''/repo'' [] ((''locked'', Dir False True ?es) # ?rest) \<lparr> skills = [], errors = [] \<rparr>
      = scanEntries ''/repo'' [] ?rest
          (report (path_join ''/repo'' ''locked'') EACCES \<lparr> skills = [], errors = [] \<rparr>)"
    by blast
  with h e show ?thesis by blast
qed

section \<open>Properties of the grouping\<close>

lemma getProperty_plain:
  "k \<notin> set objectPrototypeKeys \<Longrightarrow>
     getProperty obj k = (case map_of obj k of Some v \<Rightarrow> Own v | None \<Rightarrow> Undefined)"
  by (simp add: getProperty_def)

lemma groupLoop_plain:
  assumes "\<forall>s \<in> set ss. categoryLabel s \<notin> set objectPrototypeKeys"
    and "distinct (map fst obj)"
  shows "\<exists>obj'. groupLoop ss obj = Inr obj' \<and> distinct (map fst obj')
      \<and> set (map fst obj') = set (map fst obj) \<union> set (map categoryLabel ss)
      \<and> (\<forall>l \<in> set (map fst obj').
            map_of obj' l = Some ((case map_of obj l of Some v \<Rightarrow> v | None \<Rightarrow> [])
              @ filter (\<lambda>s. categoryLabel s = l) ss))"
  using assms
proof (induction ss arbitrary: obj)
  case Nil
  show ?case
  proof (intro exI conjI ballI)
    show "groupLoop [] obj = Inr obj" by simp
    show "distinct (map fst obj)" using Nil.prems(2) .
    show "set (map fst obj) = set (map fst obj) \<union> set (map categoryLabel [])" by simp
  next
    fix l assume "l \<in> set (map fst obj)"
    then obtain v where "map_of obj l = Some v"
      by (cases "map_of obj l") (auto simp: map_of_eq_None_iff)
    then show "map_of obj l = Some ((case map_of obj l of Some v \<Rightarrow> v | None \<Rightarrow> [])
        @ filter (\<lambda>s. categoryLabel s = l) [])"
      by (simp del: map_of_eq_Some_iff)
  qed
next
  case (Cons s ss)
  let ?c = "categoryLabel s"
  let ?old = "case map_of obj ?c of Some v \<Rightarrow> v | None \<Rightarrow> []"
  let ?obj2 = "AList.update ?c (?old @ [s]) obj"
  have plain: "?c \<notin> set objectPrototypeKeys" using Cons.prems(1) by simp
  have step: "groupLoop (s # ss) obj = groupLoop ss ?obj2"
    by (simp add: Let_def getProperty_plain [OF plain] setProperty_def update_conv'
        split: option.split)
  have d2: "distinct (map fst ?obj2)" using Cons.prems(2) by (simp add: distinct_update)
  have rest: "\<forall>s \<in> set ss. categoryLabel s \<notin> set objectPrototypeKeys"
    using Cons.prems(1) by simp
  from Cons.IH [OF rest d2] obtain obj' where r: "groupLoop ss ?obj2 = Inr obj'"
    and d: "distinct (map fst obj')"
    and k: "set (map fst obj') = set (map fst ?obj2) \<union> set (map categoryLabel ss)"
    and m: "\<forall>l \<in> set (map fst obj').
        map_of obj' l = Some ((case map_of ?obj2 l of Some v \<Rightarrow> v | None \<Rightarrow> [])
          @ filter (\<lambda>s. categoryLabel s = l) ss)"
    by blast
  have k': "set (map fst obj') = set (map fst obj) \<union> set (map categoryLabel (s # ss))"
    using k by (auto simp: dom_update image_iff)
  have m': "map_of obj' l = Some ((case map_of obj l of Some v \<Rightarrow> v | None \<Rightarrow> [])
      @ filter (\<lambda>s. categoryLabel s = l) (s # ss))" if "l \<in> set (map fst obj')" for l
  proof -
    from m that have "map_of obj' l = Some ((case map_of ?obj2 l of Some v \<Rightarrow> v | None \<Rightarrow> [])
          @ filter (\<lambda>s. categoryLabel s = l) ss)"
      by blast
    then show ?thesis
      by (cases "l = ?c") (simp_all add: update_conv' del: map_of_eq_Some_iff split: option.splits)
  qed
  show ?case
  proof (intro exI conjI ballI)
    show "groupLoop (s # ss) obj = Inr obj'" using step r by simp
    show "distinct (map fst obj')" by (rule d)
    show "set (map fst obj') = set (map fst obj) \<union> set (map categoryLabel (s # ss))"
      by (rule k')
  next
    fix l assume "l \<in> set (map fst obj')"
    then show "map_of obj' l = Some ((case map_of obj l of Some v \<Rightarrow> v | None \<Rightarrow> [])
        @ filter (\<lambda>s. categoryLabel s = l) (s # ss))"
      by (rule m')
  qed
qed

lemma buildChoices_own:
  "\<forall>l \<in> set cats. \<exists>v. map_of obj l = Some v \<Longrightarrow>
     buildChoices obj cats
       = Inr (concat (map (\<lambda>l. Separator l # map Choice (the (map_of obj l))) cats))"
  by (induction cats) (auto simp: getProperty_def)

lemma sorted_distinct_same:
  "set (xs :: string list) = set ys \<Longrightarrow> distinct xs \<Longrightarrow> sort xs = sort (remdups ys)"
  by (intro sorted_distinct_set_unique) simp_all

lemma grouping_without_prototype_keys:
  assumes "\<forall>s \<in> set ss. categoryLabel s \<notin> set objectPrototypeKeys"
  shows "choices ss = Inr (groupedChoices ss)"
proof -
  have "distinct (map fst ([] :: js_object))" by simp
  from groupLoop_plain [OF assms this] obtain obj where r: "groupLoop ss [] = Inr obj"
    and d: "distinct (map fst obj)"
    and k0: "set (map fst obj) = set (map fst ([] :: js_object)) \<union> set (map categoryLabel ss)"
    and m0: "\<forall>l \<in> set (map fst obj).
        map_of obj l = Some ((case map_of ([] :: js_object) l of Some v \<Rightarrow> v | None \<Rightarrow> [])
          @ filter (\<lambda>s. categoryLabel s = l) ss)"
    by blast
  from k0 have k: "set (map fst obj) = set (map categoryLabel ss)" by simp
  from m0 have m: "\<forall>l \<in> set (map fst obj).
        map_of obj l = Some (filter (\<lambda>s. categoryLabel s = l) ss)"
    by (simp del: map_of_eq_Some_iff)
  have s: "sortedCategories obj = sort (remdups (map categoryLabel ss))"
    unfolding sortedCategories_def using k d by (rule sorted_distinct_same)
  have own: "\<forall>l \<in> set (sortedCategories obj). \<exists>v. map_of obj l = Some v"
  proof
    fix l assume "l \<in> set (sortedCategories obj)"
    then have "l \<in> set (map fst obj)" by (simp add: sortedCategories_def)
    with m show "\<exists>v. map_of obj l = Some v" by blast
  qed
  have "buildChoices obj (sortedCategories obj)
      = Inr (concat (map (\<lambda>l. Separator l # map Choice (the (map_of obj l))) (sortedCategories obj)))"
    using own by (rule buildChoices_own)
  also have "map (\<lambda>l. Separator l # map Choice (the (map_of obj l))) (sortedCategories obj)
      = map (\<lambda>l. Separator l # map Choice (filter (\<lambda>s. categoryLabel s = l) ss))
          (sortedCategories obj)"
  proof (intro map_cong refl)
    fix l assume "l \<in> set (sortedCategories obj)"
    then have "l \<in> set (map fst obj)" by (simp add: sortedCategories_def)
    with m have "map_of obj l = Some (filter (\<lambda>s. categoryLabel s = l) ss)" by blast
    then show "Separator l # map Choice (the (map_of obj l))
        = Separator l # map Choice (filter (\<lambda>s. categoryLabel s = l) ss)"
      by simp
  qed
  finally show ?thesis
    by (simp add: choices_def skillsByCategory_def r groupedChoices_def s)
qed

text \<open>
  The order of the specification's example: the categories \<open>Zeta\<close>, \<open>Alpha\<close> and the
  empty one are shown as \<open>Alpha\<close>, \<open>Uncategorized\<close>, \<open>Zeta\<close>.
\<close>

lemma grouping_order_example:
  "choices [\<lparr> name = ''z'', displayName = ''z'', description = [], category = ''Zeta'', path = ''/r/Zeta/z'' \<rparr>,
            \<lparr> name = ''a'', displayName = ''a'', description = [], category = ''Alpha'', path = ''/r/Alpha/a'' \<rparr>,
            \<lparr> name = ''u'', displayName = ''u'', description = [], category = [], path = ''/r/u'' \<rparr>]
   = Inr [Separator ''Alpha'',
          Choice \<lparr> name = ''a'', displayName = ''a'', description = [], category = ''Alpha'', path = ''/r/Alpha/a'' \<rparr>,
          Separator ''Uncategorized'',
          Choice \<lparr> name = ''u'', displayName = ''u'', description = [], category = [], path = ''/r/u'' \<rparr>,
          Separator ''Zeta'',
          Choice \<lparr> name = ''z'', displayName = ''z'', description = [], category = ''Zeta'', path = ''/r/Zeta/z'' \<rparr>]"
  by code_simp

text \<open>
  C5: the specification has every list of skills grouped under sorted labels. For a
  skill below a category directory named like a property of \<open>Object.prototype\<close>, here
  \<open>constructor\<close>, the lookup \<open>skillsByCategory[category]\<close> finds the inherited
  function, no array is created, and \<open>push\<close> throws: nothing is grouped. For every
  other list of skills the grouping is the one the specification describes, as
  \<open>grouping_without_prototype_keys\<close> shows.
\<close>

theorem prototype_key_breaks_grouping:
  "categoryLabel \<lparr> name = ''lint'', displayName = ''Lint'', description = ''No description'',
       category = ''constructor'', path = ''/repo/constructor/lint'' \<rparr> = ''constructor''
   \<and> choices [\<lparr> name = ''lint'', displayName = ''Lint'', description = ''No description'',
       category = ''constructor'', path = ''/repo/constructor/lint'' \<rparr>] = Inl TypeError"
  by code_simp

section \<open>Properties of paths\<close>

text \<open>
  Resolving a path gives the same directory before and after \<open>path.join\<close> has
  normalised it, and joining a name to a path resolves to the entry of that name.
\<close>

lemma norm_step_empty [simp]: "norm_step a res [] = res"
  by (simp add: norm_step_def)

lemma norm_step_dot [simp]: "norm_step a res ''.'' = res"
  by (simp add: norm_step_def)

lemma norm_step_up_pop:
  "y \<noteq> ''..'' \<Longrightarrow> norm_step a (res @ [y]) ''..'' = res"
  by (simp add: norm_step_def)

lemma norm_step_push:
  "s \<noteq> [] \<Longrightarrow> s \<noteq> ''.'' \<Longrightarrow> s \<noteq> ''..'' \<Longrightarrow> norm_step a res s = res @ [s]"
  by (simp add: norm_step_def)

lemma norm_step_elements:
  "x \<in> set (norm_step a res s) \<Longrightarrow> x \<in> set res \<or> (x = s \<and> s \<noteq> [] \<and> s \<noteq> ''.'')"
  by (auto simp: norm_step_def split: if_splits dest: in_set_butlastD)

lemma foldl_norm_step_elements:
  "x \<in> set (foldl (norm_step a) res segs) \<Longrightarrow>
     x \<in> set res \<or> (x \<in> set segs \<and> x \<noteq> [] \<and> x \<noteq> ''.'')"
proof (induction segs arbitrary: res)
  case Nil
  then show ?case by simp
next
  case (Cons s segs)
  from Cons.IH [of "norm_step a res s"] Cons.prems
  have "x \<in> set (norm_step a res s) \<or> (x \<in> set segs \<and> x \<noteq> [] \<and> x \<noteq> ''.'')"
    by simp
  then show ?case using norm_step_elements [of x a res s] by auto
qed

lemma norm_step_False_no_up:
  "''..'' \<notin> set res \<Longrightarrow> ''..'' \<notin> set (norm_step False res s)"
  by (auto simp: norm_step_def dest: in_set_butlastD)

lemma foldl_norm_step_False_no_up:
  "''..'' \<notin> set res \<Longrightarrow> ''..'' \<notin> set (foldl (norm_step False) res segs)"
  by (induction segs arbitrary: res) (simp_all add: norm_step_False_no_up)

lemma foldl_norm_step_plain:
  "\<forall>x \<in> set xs. x \<noteq> [] \<and> x \<noteq> ''.'' \<and> x \<noteq> ''..'' \<Longrightarrow>
     foldl (norm_step a) acc xs = acc @ xs"
  by (induction xs arbitrary: acc) (simp_all add: norm_step_push)

lemma norm_step_commute:
  assumes "\<forall>x \<in> set acc. x \<noteq> [] \<and> x \<noteq> ''.''"
  shows "foldl (norm_step False) base (norm_step True acc s)
      = norm_step False (foldl (norm_step False) base acc) s"
proof (cases "s = ''..''")
  case False
  then show ?thesis
    by (cases "s = [] \<or> s = ''.''") (auto simp: norm_step_push)
next
  case True
  show ?thesis
  proof (cases "acc \<noteq> [] \<and> last acc \<noteq> ''..''")
    case False
    then have "norm_step True acc s = acc @ [s]" using True by (auto simp: norm_step_def)
    then show ?thesis by simp
  next
    case pop: True
    then have acc: "acc = butlast acc @ [last acc]" by simp
    have la: "last acc \<noteq> [] \<and> last acc \<noteq> ''.'' \<and> last acc \<noteq> ''..''"
      using pop assms by (metis last_in_set)
    have "foldl (norm_step False) base acc
        = norm_step False (foldl (norm_step False) base (butlast acc)) (last acc)"
      by (subst acc) (simp only: foldl_append foldl.simps)
    also have "\<dots> = foldl (norm_step False) base (butlast acc) @ [last acc]"
      using la by (simp add: norm_step_push)
    finally have "norm_step False (foldl (norm_step False) base acc) s
        = foldl (norm_step False) base (butlast acc)"
      using True la by (simp add: norm_step_up_pop)
    moreover have "norm_step True acc s = butlast acc"
      using True pop by (simp add: norm_step_def)
    ultimately show ?thesis by simp
  qed
qed

lemma norm_step_True_no_dot:
  "\<forall>x \<in> set acc. x \<noteq> [] \<and> x \<noteq> ''.'' \<Longrightarrow>
     \<forall>x \<in> set (norm_step True acc s). x \<noteq> [] \<and> x \<noteq> ''.''"
  using norm_step_elements [of _ True acc s] by blast

lemma foldl_norm_step_commute:
  "\<forall>x \<in> set acc. x \<noteq> [] \<and> x \<noteq> ''.'' \<Longrightarrow>
     foldl (norm_step False) base (foldl (norm_step True) acc segs)
       = foldl (norm_step False) (foldl (norm_step False) base acc) segs"
proof (induction segs arbitrary: acc)
  case Nil
  show ?case by simp
next
  case (Cons s segs)
  have "foldl (norm_step False) base (foldl (norm_step True) acc (s # segs))
      = foldl (norm_step False) (foldl (norm_step False) base (norm_step True acc s)) segs"
    using Cons.IH [OF norm_step_True_no_dot [OF Cons.prems]] by simp
  then show ?case by (simp add: norm_step_commute [OF Cons.prems])
qed

lemma split_sep_no_sep_inside: "x \<in> set (split_sep d s) \<Longrightarrow> d \<notin> set x"
proof (induction s arbitrary: x)
  case Nil
  then show ?case by simp
next
  case (Cons c t)
  obtain y ys where y: "split_sep d t = y # ys"
    using split_sep_not_Nil [of d t] by (cases "split_sep d t") auto
  show ?case
  proof (cases "c = d")
    case True
    with Cons show ?thesis by auto
  next
    case False
    with Cons.prems y have "x = c # y \<or> x \<in> set ys" by simp
    then show ?thesis
    proof
      assume "x = c # y"
      moreover have "d \<notin> set y" using Cons.IH [of y] y by simp
      ultimately show ?thesis using False by simp
    next
      assume "x \<in> set ys"
      then show ?thesis using Cons.IH [of x] y by simp
    qed
  qed
qed

lemma join_sep_hd:
  "xs \<noteq> [] \<Longrightarrow> \<forall>x \<in> set xs. x \<noteq> [] \<Longrightarrow>
     join_sep d xs \<noteq> [] \<and> hd (join_sep d xs) = hd (hd xs)"
  by (induction d xs rule: join_sep.induct) simp_all

lemma resolve_normalize: "resolve cwd (normalize p) = resolve cwd p"
proof (cases "p = []")
  case True
  then show ?thesis by (simp add: normalize_def resolve_def)
next
  case False
  define ab where "ab = (hd p = CHR ''/'')"
  define tr where "tr = (last p = CHR ''/'')"
  define segs where "segs = split_sep CHR ''/'' p"
  define N where "N = foldl (norm_step (\<not> ab)) [] segs"
  define base where "base = (if ab then [] else cwd)"
  have rp: "resolve cwd p = foldl (norm_step False) base segs"
    using False by (simp add: resolve_def ab_def base_def segs_def)
  have Nel: "\<forall>x \<in> set N. x \<noteq> [] \<and> x \<noteq> ''.'' \<and> CHR ''/'' \<notin> set x"
  proof
    fix x assume "x \<in> set N"
    then have "x \<in> set segs \<and> x \<noteq> [] \<and> x \<noteq> ''.''"
      using foldl_norm_step_elements [of x "\<not> ab" "[]" segs] by (simp add: N_def)
    then show "x \<noteq> [] \<and> x \<noteq> ''.'' \<and> CHR ''/'' \<notin> set x"
      using split_sep_no_sep_inside [of x "CHR ''/''" p] by (simp add: segs_def)
  qed
  have fN: "foldl (norm_step False) base N = foldl (norm_step False) base segs"
  proof (cases ab)
    case True
    have "''..'' \<notin> set N"
      using foldl_norm_step_False_no_up [of "[]" segs] True by (simp add: N_def)
    with Nel have "\<forall>x \<in> set N. x \<noteq> [] \<and> x \<noteq> ''.'' \<and> x \<noteq> ''..''" by blast
    then have "foldl (norm_step False) [] N = N"
      using foldl_norm_step_plain [of N False "[]"] by simp
    with True show ?thesis by (simp add: base_def N_def)
  next
    case False
    then show ?thesis
      using foldl_norm_step_commute [of "[]" base segs] by (simp add: N_def)
  qed
  have nz: "normalize p =
      (if N = [] then (if ab then ''/'' else if tr then ''./'' else ''.'')
       else (if ab then ''/'' else []) @ join_sep ''/'' N @ (if tr then ''/'' else []))"
  proof -
    have "join_sep ''/'' N = [] \<longleftrightarrow> N = []"
      using join_sep_hd [of N "''/''"] Nel by auto
    then show ?thesis
      using False
      by (simp add: normalize_def normalizeString_def Let_def ab_def tr_def N_def segs_def)
  qed
  show ?thesis
  proof (cases "N = []")
    case True
    have "resolve cwd (normalize p) = base"
      using True by (simp add: nz resolve_def base_def)
    moreover have "foldl (norm_step False) base segs = base"
      using fN True by simp
    ultimately show ?thesis by (simp add: rp)
  next
    case nonempty: False
    let ?q = "join_sep ''/'' N"
    have q: "?q \<noteq> []" and hq: "hd ?q = hd (hd N)"
      using join_sep_hd [of N "''/''"] Nel nonempty by auto
    have "hd N \<in> set N" using nonempty by simp
    then have "hd (hd N) \<in> set (hd N)" and "CHR ''/'' \<notin> set (hd N)"
      using Nel by auto
    then have hq': "hd ?q \<noteq> CHR ''/''" using hq by auto
    have sq: "split_sep CHR ''/'' ?q = N"
      using split_sep_join_sep [of N "CHR ''/''"] nonempty Nel by simp
    have sqt: "split_sep CHR ''/'' (?q @ ''/'') = N @ [[]]"
      using split_sep_append [of "CHR ''/''" ?q "[]"] sq by simp
    have "resolve cwd (normalize p) = foldl (norm_step False) base N"
      using nonempty q hq' sq sqt
      by (cases ab; cases tr) (simp_all add: nz resolve_def base_def hd_append)
    then show ?thesis by (simp add: fN rp)
  qed
qed

lemma resolve_path_join:
  assumes "valid_name n"
  shows "resolve cwd (path_join a n) = resolve cwd a @ [n]"
proof -
  have n: "n \<noteq> []" "CHR ''/'' \<notin> set n" "n \<noteq> ''.''" "n \<noteq> ''..''"
    using assms by (simp_all add: valid_name_def)
  have hn: "hd n \<noteq> CHR ''/''" using n(1,2) by (cases n) auto
  have sn: "split_sep CHR ''/'' n = [n]" using n(2) by (rule split_sep_no_sep)
  show ?thesis
  proof (cases "a = []")
    case True
    then have "path_join a n = normalize n" using n(1) by (simp add: path_join_def)
    then have "resolve cwd (path_join a n) = resolve cwd n" by (simp add: resolve_normalize)
    also have "\<dots> = cwd @ [n]"
      using n hn by (simp add: resolve_def sn norm_step_push)
    finally show ?thesis using True by (simp add: resolve_def)
  next
    case False
    then have "path_join a n = normalize (a @ ''/'' @ n)"
      using n(1) by (simp add: path_join_def)
    then have "resolve cwd (path_join a n) = resolve cwd (a @ ''/'' @ n)"
      by (simp add: resolve_normalize)
    also have "\<dots> = norm_step False (resolve cwd a) n"
      using False split_sep_append [of "CHR ''/''" a n]
      by (simp add: resolve_def sn hd_append)
    finally show ?thesis using n by (simp add: norm_step_push)
  qed
qed

section \<open>Properties of the file system\<close>

lemma nodeAt_modifyAt_same: "nodeAt (modifyAt p f r) p = map_option f (nodeAt r p)"
proof (induction p arbitrary: r)
  case Nil
  show ?case by simp
next
  case (Cons n p)
  show ?case
    by (cases r) (simp_all add: Cons.IH update_conv' split: option.split)
qed

lemma nodeAt_modifyAt_other:
  "\<not> prefix p q \<Longrightarrow> \<not> prefix q p \<Longrightarrow> nodeAt (modifyAt p f r) q = nodeAt r q"
proof (induction p arbitrary: q r)
  case Nil
  then show ?case by simp
next
  case (Cons n p)
  from Cons.prems obtain m q' where q: "q = m # q'" by (cases q) auto
  show ?case
  proof (cases r)
    case (File c)
    then show ?thesis by simp
  next
    case (Dir l w es)
    show ?thesis
    proof (cases "m = n")
      case True
      with Cons.prems q have "\<not> prefix p q'" and "\<not> prefix q' p" by simp_all
      then show ?thesis
        using Dir q True by (simp add: Cons.IH update_conv' split: option.split)
    next
      case False
      then show ?thesis using Dir q by (simp add: update_conv' split: option.split)
    qed
  qed
qed

lemma modifyAt_modifyAt: "modifyAt p f (modifyAt p g r) = modifyAt p (f \<circ> g) r"
proof (induction p arbitrary: r)
  case Nil
  show ?case by simp
next
  case (Cons n p)
  show ?case
    by (cases r) (simp_all add: Cons.IH update_conv' split: option.split)
qed

lemma modifyAt_cong:
  "(\<And>d. nodeAt r p = Some d \<Longrightarrow> f d = g d) \<Longrightarrow> modifyAt p f r = modifyAt p g r"
proof (induction p arbitrary: r)
  case Nil
  then show ?case by simp
next
  case (Cons n p)
  show ?case
  proof (cases r)
    case (File c)
    then show ?thesis by simp
  next
    case (Dir l w es)
    show ?thesis
    proof (cases "map_of es n")
      case None
      with Dir show ?thesis by simp
    next
      case (Some d)
      have "modifyAt p f d = modifyAt p g d"
        using Cons.prems Dir Some by (intro Cons.IH) simp
      with Dir Some show ?thesis by simp
    qed
  qed
qed

lemma modifyAt_id:
  "(\<And>d. nodeAt r p = Some d \<Longrightarrow> f d = d) \<Longrightarrow> modifyAt p f r = r"
proof (induction p arbitrary: r)
  case Nil
  then show ?case by simp
next
  case (Cons n p)
  show ?case
  proof (cases r)
    case (File c)
    then show ?thesis by simp
  next
    case (Dir l w es)
    show ?thesis
    proof (cases "map_of es n")
      case None
      with Dir show ?thesis by simp
    next
      case (Some d)
      have "modifyAt p f d = d"
        using Cons.prems Dir Some by (intro Cons.IH) simp
      with Dir Some show ?thesis by (simp add: update_triv)
    qed
  qed
qed

lemma nodeAt_snoc:
  "nodeAt r (p @ [n]) =
     (case nodeAt r p of Some (Dir l w es) \<Rightarrow> map_of es n | Some (File c) \<Rightarrow> None | None \<Rightarrow> None)"
proof (induction p arbitrary: r)
  case Nil
  show ?case by (cases r) (simp_all split: option.split)
next
  case (Cons m p)
  show ?case by (cases r) (simp_all add: Cons.IH split: option.split)
qed

lemma ensureDirAt_exists: "nodeAt r p = Some (Dir l w es) \<Longrightarrow> ensureDirAt p r = Inr r"
proof (induction p arbitrary: r)
  case Nil
  then show ?case by simp
next
  case (Cons n p)
  then show ?case
    by (cases r) (auto simp: update_triv split: option.splits)
qed

lemma ensureDirAt_makes_dir:
  "ensureDirAt p r = Inr r1 \<Longrightarrow> \<exists>l w es. nodeAt r1 p = Some (Dir l w es)"
proof (induction p arbitrary: r r1)
  case Nil
  then show ?case by (cases r) auto
next
  case (Cons n p)
  then show ?case
    by (cases r) (auto simp: update_conv' split: sum.splits option.splits if_splits)
qed

lemma ensureDirAt_other:
  "ensureDirAt p r = Inr r1 \<Longrightarrow> \<not> prefix p q \<Longrightarrow> \<not> prefix q p \<Longrightarrow> nodeAt r1 q = nodeAt r q"
proof (induction p arbitrary: q r r1)
  case Nil
  then show ?case by simp
next
  case (Cons n p)
  from Cons.prems obtain m q' where q: "q = m # q'" by (cases q) auto
  show ?case
  proof (cases r)
    case (File c)
    with Cons.prems show ?thesis by simp
  next
    case (Dir l w es)
    let ?d = "case map_of es n of None \<Rightarrow> Dir True True [] | Some d \<Rightarrow> d"
    from Cons.prems(1) Dir obtain d' where e: "ensureDirAt p ?d = Inr d'"
      and r1: "r1 = Dir l w (AList.update n d' es)"
      by (auto split: sum.splits option.splits if_splits)
    show ?thesis
    proof (cases "m = n")
      case False
      then show ?thesis using Dir q r1 by (simp add: update_conv')
    next
      case True
      with Cons.prems q have np: "\<not> prefix p q'" and nq: "\<not> prefix q' p" by simp_all
      have "nodeAt d' q' = nodeAt ?d q'" using e np nq by (rule Cons.IH)
      moreover from nq obtain k q'' where "q' = k # q''" by (cases q') auto
      ultimately show ?thesis
        using Dir q r1 True by (simp add: update_conv' split: option.split)
    qed
  qed
qed

lemma node_induct:
  assumes fi: "\<And>c. P (File c)"
    and dir: "\<And>l w es. Q es \<Longrightarrow> P (Dir l w es)"
    and nil: "Q []"
    and entry: "\<And>n d rest. P d \<Longrightarrow> Q rest \<Longrightarrow> Q ((n, d) # rest)"
  shows "P d" and "Q es"
proof -
  have f: "Q ((n, File c) # rest)" if "Q rest" for n c rest
    using fi that by (rule entry)
  show "P d" by (rule tree_induct(1) [of P Q, OF fi dir nil f entry])
  show "Q es" by (rule tree_induct(2) [of P Q, OF fi dir nil f entry])
qed

lemma copyTree_File:
  "copyTree (File c) =
     (case c of Some t \<Rightarrow> (Some (File (Some t)), None) | None \<Rightarrow> (None, Some EACCES))"
  by (cases c) simp_all

text \<open>A copy that does not fail is the tree that was copied, with its modes.\<close>

lemma copy_without_error:
  "\<forall>res. copyTree d = (res, None) \<longrightarrow> res = Some d"
  "\<forall>es'. copyEntries es = (es', None) \<longrightarrow> es' = es"
  by (induction d and es rule: node_induct)
    (auto simp: copyTree_File split: prod.splits option.splits if_splits)

text \<open>Nothing is removed from a directory that is not writable.\<close>

lemma removeTree_False: "removeTree False d = Some d"
  by (cases d) simp_all

text \<open>What a removal left cannot be removed by the next one either.\<close>

lemma removeTree_idem:
  "\<forall>pw d'. removeTree pw d = Some d' \<longrightarrow> removeTree pw d' = Some d'"
  "\<forall>w. removeEntries w (removeEntries w es) = removeEntries w es"
proof (induction d and es rule: node_induct)
  case (1 c)
  show ?case by (auto split: if_splits)
next
  case (2 l w es)
  show ?case
  proof (intro allI impI)
    fix pw d' assume a: "removeTree pw (Dir l w es) = Some d'"
    show "removeTree pw d' = Some d'"
    proof (cases "\<not> pw \<or> (es \<noteq> [] \<and> \<not> l)")
      case True
      with a have "d' = Dir l w es" by auto
      with True show ?thesis by auto
    next
      case False
      with a obtain e es' where r: "removeEntries w es = e # es'" and d': "d' = Dir l w (e # es')"
        by (auto split: list.splits)
      from 2 r have "removeEntries w (e # es') = e # es'" by metis
      with False d' show ?thesis by simp
    qed
  qed
next
  case 3
  show ?case by simp
next
  case (4 n d rest)
  then show ?case by (auto split: option.splits)
qed

text \<open>
  The copy of a tree whose directories are writable, unless they are empty, can be
  removed, also when the copy failed and is not complete.
\<close>

lemma copy_removable:
  "writableDirs d \<longrightarrow> (\<forall>d' err. copyTree d = (Some d', err) \<longrightarrow> removeTree True d' = None)"
  "writableEntries es \<longrightarrow> removeEntries True (fst (copyEntries es)) = []"
proof (induction d and es rule: node_induct)
  case (1 c)
  show ?case by (auto simp: copyTree_File split: option.splits)
next
  case (2 l w es)
  then show ?case
    by (auto split: prod.splits option.splits if_splits list.splits)
next
  case 3
  show ?case by simp
next
  case (4 n d rest)
  then show ?case
    by (auto split: prod.splits option.splits)
qed

lemma update_absent: "k \<notin> fst ` set al \<Longrightarrow> AList.update k v al = al @ [(k, v)]"
  by (induction al) auto

lemma update_after_delete:
  "AList.update k v (AList.delete k al) = AList.delete k al @ [(k, v)]"
  by (rule update_absent) (rule delete_notin_dom)

lemma delete_absent: "map_of al k = None \<Longrightarrow> AList.delete k al = al"
  by (induction al) (auto split: if_splits)

lemma delete_as_filter: "AList.delete k E = filter (\<lambda>e. fst e \<noteq> k) E"
  by (induction E) auto

section \<open>The installer on the install directory\<close>

lemma setEntries_at:
  "nodeAt r tb = Some (Dir l w E) \<Longrightarrow> nodeAt (setEntries tb X r) tb = Some (Dir l w X)"
  by (simp add: setEntries_def nodeAt_modifyAt_same)

lemma setEntries_other:
  "outside tb q \<Longrightarrow> nodeAt (setEntries tb X r) q = nodeAt r q"
  unfolding setEntries_def by (rule nodeAt_modifyAt_other) (simp_all add: outside_def)

lemma setEntries_twice:
  "setEntries tb Y (setEntries tb X r) = setEntries tb Y r"
proof -
  have "setEntries tb Y (setEntries tb X r) = modifyAt tb (withEntries Y \<circ> withEntries X) r"
    unfolding setEntries_def by (rule modifyAt_modifyAt)
  also have "\<dots> = modifyAt tb (withEntries Y) r"
  proof (rule modifyAt_cong)
    fix d show "(withEntries Y \<circ> withEntries X) d = withEntries Y d" by (cases d) simp_all
  qed
  finally show ?thesis by (simp add: setEntries_def)
qed

lemma setEntries_same:
  "nodeAt r tb = Some (Dir l w E) \<Longrightarrow> setEntries tb E r = r"
  unfolding setEntries_def by (rule modifyAt_id) simp

lemma modifyAt_as_setEntries:
  assumes "nodeAt r tb = Some (Dir l w E)"
  shows "modifyAt tb (deleteEntry n) r = setEntries tb (AList.delete n E) r"
    and "modifyAt tb (putEntry n v) r = setEntries tb (AList.update n v E) r"
  unfolding setEntries_def using assms by (auto intro!: modifyAt_cong)

text \<open>
  For a source outside the install directory, one turn of the loop changes only the
  entries of the install directory. First the removal of the target.
\<close>

lemma remove_step:
  assumes tb: "resolve cwd tp = tb"
    and dir: "nodeAt r tb = Some (Dir l w E)"
    and vn: "valid_name (name s)"
  shows "(if pathExists cwd r (path_join tp (name s))
          then remove cwd (path_join tp (name s)) r else (r, None))
       = (case map_of E (name s) of
            None \<Rightarrow> (r, None)
          | Some x \<Rightarrow>
              (case removeTree w x of
                 None \<Rightarrow> (setEntries tb (AList.delete (name s) E) r, None)
               | Some x' \<Rightarrow> (setEntries tb (AList.update (name s) x' E) r, Some EACCES)))"
proof -
  let ?n = "name s"
  let ?t = "tb @ [?n]"
  have t: "resolve cwd (path_join tp ?n) = ?t"
    using resolve_path_join [OF vn, of cwd tp] tb by simp
  have at_t: "nodeAt r ?t = map_of E ?n"
    by (simp add: nodeAt_snoc dir)
  show ?thesis
  proof (cases "map_of E ?n")
    case None
    then show ?thesis by (simp add: pathExists_def t at_t)
  next
    case (Some x)
    then have ex: "pathExists cwd r (path_join tp ?n)" by (simp add: pathExists_def t at_t)
    show ?thesis
      using Some ex dir
      by (simp add: remove_def Let_def t modifyAt_as_setEntries [OF dir] split: option.split)
  qed
qed

text \<open>Then the copy, to a target that does not exist.\<close>

lemma copy_step:
  assumes tb: "resolve cwd tp = tb"
    and dir: "nodeAt r tb = Some (Dir l w E)"
    and vn: "valid_name (name s)"
    and out: "outside tb (resolve cwd (path s))"
    and src: "src s = nodeAt r (resolve cwd (path s))"
    and absent: "map_of E (name s) = None"
  shows "copy cwd (path s) (path_join tp (name s)) r
       = (setEntries tb (fst (copyInto w src s E)) r, snd (copyInto w src s E))"
proof -
  let ?n = "name s"
  let ?sp = "resolve cwd (path s)"
  let ?t = "tb @ [?n]"
  have t: "resolve cwd (path_join tp ?n) = ?t"
    using resolve_path_join [OF vn, of cwd tp] tb by simp
  have np: "\<not> prefix tb ?sp" and nq: "\<not> prefix ?sp tb"
    using out by (simp_all add: outside_def)
  have at_t: "nodeAt r ?t = None"
    by (simp add: nodeAt_snoc dir absent)
  have ens: "ensureDirAt tb r = Inr r"
    using dir by (rule ensureDirAt_exists)
  have ne: "?sp \<noteq> ?t"
    using np by auto
  have same: "setEntries tb E r = r"
    using dir by (rule setEntries_same)
  show ?thesis
  proof (cases "src s")
    case None
    then show ?thesis
      using src by (simp add: copy_def Let_def copyInto_def created_def copyResult_def same)
  next
    case (Some d)
    with src have at_s: "nodeAt r ?sp = Some d" by simp
    show ?thesis
    proof (cases w)
      case False
      then show ?thesis
        using Some at_s
        by (simp add: copy_def Let_def t at_t ne nq ens dir copyInto_def same)
    next
      case True
      obtain res err where c: "copyTree d = (res, err)" by (cases "copyTree d")
      show ?thesis
      proof (cases res)
        case None
        then show ?thesis
          using Some at_s True c
          by (simp add: copy_def Let_def t at_t ne nq ens dir copyInto_def created_def
              copyResult_def same)
      next
        case (Some d')
        have "AList.update ?n d' E = E @ [(?n, d')]"
          using absent by (intro update_absent) (simp add: map_of_eq_None_iff)
        then show ?thesis
          using Some \<open>src s = Some d\<close> at_s True c
          by (simp add: copy_def Let_def t at_t ne nq ens dir copyInto_def created_def
              copyResult_def modifyAt_as_setEntries [OF dir])
      qed
    qed
  qed
qed

lemma install_step:
  assumes tb: "resolve cwd tp = tb"
    and dir: "nodeAt r tb = Some (Dir l w E)"
    and vn: "valid_name (name s)"
    and out: "outside tb (resolve cwd (path s))"
    and src: "src s = nodeAt r (resolve cwd (path s))"
  shows "(case (if pathExists cwd r (path_join tp (name s))
                then remove cwd (path_join tp (name s)) r else (r, None)) of
            (r1, Some e) \<Rightarrow> (r1, Some e)
          | (r1, None) \<Rightarrow> copy cwd (path s) (path_join tp (name s)) r1)
       = (setEntries tb (fst (stepEntries w src s E)) r, snd (stepEntries w src s E))"
proof -
  let ?n = "name s"
  note rm = remove_step [OF tb dir vn]
  show ?thesis
  proof (cases "map_of E ?n")
    case None
    have "copy cwd (path s) (path_join tp ?n) r
        = (setEntries tb (fst (copyInto w src s E)) r, snd (copyInto w src s E))"
      using tb dir vn out src None by (rule copy_step)
    with None show ?thesis by (simp add: rm stepEntries_def)
  next
    case (Some x)
    show ?thesis
    proof (cases "removeTree w x")
      case (Some x')
      with \<open>map_of E ?n = Some x\<close> show ?thesis by (simp add: rm stepEntries_def)
    next
      case None
      let ?E1 = "AList.delete ?n E"
      let ?r1 = "setEntries tb ?E1 r"
      have dir1: "nodeAt ?r1 tb = Some (Dir l w ?E1)"
        using dir by (rule setEntries_at)
      have src1: "src s = nodeAt ?r1 (resolve cwd (path s))"
        using src setEntries_other [OF out] by simp
      have absent: "map_of ?E1 ?n = None" by (simp add: delete_conv')
      have "copy cwd (path s) (path_join tp ?n) ?r1
          = (setEntries tb (fst (copyInto w src s ?E1)) ?r1, snd (copyInto w src s ?E1))"
        using tb dir1 vn out src1 absent by (rule copy_step)
      with None \<open>map_of E ?n = Some x\<close> show ?thesis
        by (simp add: rm stepEntries_def setEntries_twice)
    qed
  qed
qed

lemma installLoop_Cons:
  "installLoop cwd tp (s # ss) (r, out)
     = (case (case (if pathExists cwd r (path_join tp (name s))
                    then remove cwd (path_join tp (name s)) r else (r, None)) of
                (r1, Some e) \<Rightarrow> (r1, Some e)
              | (r1, None) \<Rightarrow> copy cwd (path s) (path_join tp (name s)) r1) of
          (r2, Some e) \<Rightarrow> ((r2, out), Some e)
        | (r2, None) \<Rightarrow> installLoop cwd tp ss (r2, out @ [displayName s]))"
  by (simp add: Let_def split: prod.splits option.splits)

text \<open>The loop, on the entries of the install directory.\<close>

lemma install_loop_effect:
  assumes tb: "resolve cwd tp = tb"
    and ok: "\<forall>s \<in> set ss. valid_name (name s) \<and> outside tb (resolve cwd (path s))
        \<and> src s = nodeAt r (resolve cwd (path s))"
    and dir: "nodeAt r tb = Some (Dir l w E)"
  shows "installLoop cwd tp ss (r, out)
      = ((setEntries tb (fst (runEntries w src ss E)) r,
          out @ map displayName (fst (snd (runEntries w src ss E)))),
         snd (snd (runEntries w src ss E)))"
  using ok dir
proof (induction ss arbitrary: r E out)
  case Nil
  then show ?case by (simp add: setEntries_same)
next
  case (Cons s ss)
  obtain E1 err where st: "stepEntries w src s E = (E1, err)" by (cases "stepEntries w src s E")
  let ?r2 = "setEntries tb E1 r"
  have step: "(case (if pathExists cwd r (path_join tp (name s))
                then remove cwd (path_join tp (name s)) r else (r, None)) of
            (r1, Some e) \<Rightarrow> (r1, Some e)
          | (r1, None) \<Rightarrow> copy cwd (path s) (path_join tp (name s)) r1)
       = (?r2, err)"
    using install_step [OF tb Cons.prems(2), of s src] Cons.prems(1) st by simp
  have loop: "installLoop cwd tp (s # ss) (r, out)
      = (case err of Some e \<Rightarrow> ((?r2, out), Some e)
         | None \<Rightarrow> installLoop cwd tp ss (?r2, out @ [displayName s]))"
    unfolding installLoop_Cons step by (simp split: option.split)
  show ?case
  proof (cases err)
    case (Some e)
    then show ?thesis by (simp add: loop st del: installLoop.simps)
  next
    case None
    have dir2: "nodeAt ?r2 tb = Some (Dir l w E1)"
      using Cons.prems(2) by (rule setEntries_at)
    have ok2: "\<forall>s' \<in> set ss. valid_name (name s') \<and> outside tb (resolve cwd (path s'))
        \<and> src s' = nodeAt ?r2 (resolve cwd (path s'))"
      using Cons.prems(1) by (simp add: setEntries_other)
    have "installLoop cwd tp ss (?r2, out @ [displayName s])
        = ((setEntries tb (fst (runEntries w src ss E1)) ?r2,
            (out @ [displayName s]) @ map displayName (fst (snd (runEntries w src ss E1)))),
           snd (snd (runEntries w src ss E1)))"
      using ok2 dir2 by (rule Cons.IH)
    with None show ?thesis
      by (simp add: loop st setEntries_twice del: installLoop.simps split: prod.splits)
  qed
qed

lemma split_skills_dir: "split_sep CHR ''/'' CLAUDE_SKILLS_DIR = [''.claude'', ''skills'']"
  by (simp add: CLAUDE_SKILLS_DIR_def)

lemma resolve_targetPath:
  "resolve cwd (path_join targetDir CLAUDE_SKILLS_DIR) = resolve cwd targetDir @ [''.claude'', ''skills'']"
proof (cases "targetDir = []")
  case True
  then have "path_join targetDir CLAUDE_SKILLS_DIR = normalize CLAUDE_SKILLS_DIR"
    by (simp add: path_join_def CLAUDE_SKILLS_DIR_def)
  then have "resolve cwd (path_join targetDir CLAUDE_SKILLS_DIR) = resolve cwd CLAUDE_SKILLS_DIR"
    by (simp add: resolve_normalize)
  also have "\<dots> = cwd @ [''.claude'', ''skills'']"
    by (simp add: resolve_def split_skills_dir norm_step_push) (simp add: CLAUDE_SKILLS_DIR_def)
  finally show ?thesis using True by (simp add: resolve_def)
next
  case False
  then have "path_join targetDir CLAUDE_SKILLS_DIR = normalize (targetDir @ ''/'' @ CLAUDE_SKILLS_DIR)"
    by (simp add: path_join_def CLAUDE_SKILLS_DIR_def)
  then have "resolve cwd (path_join targetDir CLAUDE_SKILLS_DIR)
      = resolve cwd (targetDir @ ''/'' @ CLAUDE_SKILLS_DIR)"
    by (simp add: resolve_normalize)
  also have "\<dots> = resolve cwd targetDir @ [''.claude'', ''skills'']"
    using False split_sep_append [of "CHR ''/''" targetDir CLAUDE_SKILLS_DIR]
    by (simp add: resolve_def split_skills_dir hd_append norm_step_push)
  finally show ?thesis .
qed

lemma installSkills_effect:
  assumes ok: "\<forall>s \<in> set sel. valid_name (name s)
        \<and> outside (resolve cwd (path_join targetDir CLAUDE_SKILLS_DIR)) (resolve cwd (path s))"
    and ens: "ensureDir cwd (path_join targetDir CLAUDE_SKILLS_DIR) root = Inr r1"
  shows "\<exists>l w E. nodeAt r1 (resolve cwd (path_join targetDir CLAUDE_SKILLS_DIR)) = Some (Dir l w E)
      \<and> installSkills cwd sel targetDir root
          = ((setEntries (resolve cwd (path_join targetDir CLAUDE_SKILLS_DIR))
                (fst (runEntries w (\<lambda>s. nodeAt root (resolve cwd (path s))) sel E)) r1,
              map displayName (fst (snd (runEntries w (\<lambda>s. nodeAt root (resolve cwd (path s))) sel E)))),
             snd (snd (runEntries w (\<lambda>s. nodeAt root (resolve cwd (path s))) sel E)))"
proof -
  let ?tp = "path_join targetDir CLAUDE_SKILLS_DIR"
  let ?tb = "resolve cwd ?tp"
  let ?src = "\<lambda>s. nodeAt root (resolve cwd (path s))"
  from ens have e: "ensureDirAt ?tb root = Inr r1" by (simp add: ensureDir_def)
  from ensureDirAt_makes_dir [OF e] obtain l w E where dir: "nodeAt r1 ?tb = Some (Dir l w E)"
    by blast
  have ok1: "\<forall>s \<in> set sel. valid_name (name s) \<and> outside ?tb (resolve cwd (path s))
      \<and> ?src s = nodeAt r1 (resolve cwd (path s))"
  proof
    fix s assume "s \<in> set sel"
    with ok have v: "valid_name (name s)" and o: "outside ?tb (resolve cwd (path s))" by simp_all
    from o have "nodeAt r1 (resolve cwd (path s)) = nodeAt root (resolve cwd (path s))"
      by (intro ensureDirAt_other [OF e]) (simp_all add: outside_def)
    with v o show "valid_name (name s) \<and> outside ?tb (resolve cwd (path s))
      \<and> ?src s = nodeAt r1 (resolve cwd (path s))"
      by simp
  qed
  have "installSkills cwd sel targetDir root = installLoop cwd ?tp sel (r1, [])"
    using ens by (simp add: installSkills_def Let_def)
  also have "\<dots> = ((setEntries ?tb (fst (runEntries w ?src sel E)) r1,
        [] @ map displayName (fst (snd (runEntries w ?src sel E)))),
        snd (snd (runEntries w ?src sel E)))"
    using refl ok1 dir by (rule install_loop_effect)
  finally show ?thesis using dir by simp
qed

section \<open>Properties of the installer loop on the install directory\<close>

lemma created_keys: "fst ` set (created src s) \<subseteq> {name s}"
  by (auto simp: created_def split: option.split)

lemma copyInto_True: "copyInto True src s E = (E @ created src s, snd (copyResult src s))"
  by (simp add: copyInto_def)

lemma copyResult_ok:
  assumes "snd (copyResult src s) = None"
  shows "\<exists>d. src s = Some d \<and> created src s = [(name s, d)]"
proof (cases "src s")
  case None
  with assms show ?thesis by (simp add: copyResult_def)
next
  case (Some d)
  with assms have "snd (copyTree d) = None" by (simp add: copyResult_def)
  then have "copyTree d = (fst (copyTree d), None)" by (cases "copyTree d") simp
  with copy_without_error(1) [of d] have "fst (copyTree d) = Some d" by blast
  with Some show ?thesis by (simp add: created_def copyResult_def)
qed

text \<open>A turn of the loop that does not fail: the install directory is writable.\<close>

lemma step_success:
  assumes "stepEntries w src s E = (E1, None)"
  shows "w \<and> snd (copyResult src s) = None \<and> E1 = AList.delete (name s) E @ created src s"
proof -
  obtain Z where c: "copyInto w src s Z = (E1, None)" and Z: "Z = AList.delete (name s) E"
    using assms
    by (auto simp: stepEntries_def delete_absent split: option.splits)
  from c have a: "\<not> (\<not> w \<and> src s \<noteq> None)"
    and b: "E1 = Z @ created src s" and ok: "snd (copyResult src s) = None"
    by (auto simp: copyInto_def split: if_splits)
  from copyResult_ok [OF ok] a have w by auto
  with b ok Z show ?thesis by simp
qed

text \<open>A turn of the loop whose target does not exist or can be removed.\<close>

lemma step_free:
  "\<forall>x. map_of E (name s) = Some x \<longrightarrow> removeTree True x = None \<Longrightarrow>
     stepEntries True src s E = (AList.delete (name s) E @ created src s, snd (copyResult src s))"
  by (auto simp: stepEntries_def copyInto_True delete_absent split: option.splits)

lemma filter_delete_names:
  "filter (\<lambda>e. fst e \<notin> name ` set ss) (AList.delete (name s) E)
     = filter (\<lambda>e. fst e \<notin> name ` set (s # ss)) E"
  by (auto simp: delete_as_filter intro: filter_cong)

lemma run_step_None:
  "stepEntries w src s E = (E1, None) \<Longrightarrow>
     runEntries w src (s # ss) E
       = (fst (runEntries w src ss E1), s # fst (snd (runEntries w src ss E1)),
          snd (snd (runEntries w src ss E1)))"
  by (simp split: prod.splits)

lemma run_step_Some:
  "stepEntries w src s E = (E1, Some e) \<Longrightarrow> runEntries w src (s # ss) E = (E1, [], Some e)"
  by simp

text \<open>The loop when it completes.\<close>

lemma run_success:
  "snd (snd (runEntries w src ss E)) = None \<Longrightarrow>
     fst (runEntries w src ss E) = filter (\<lambda>e. fst e \<notin> name ` set ss) E @ produced src ss
     \<and> fst (snd (runEntries w src ss E)) = ss
     \<and> (\<forall>s \<in> set ss. snd (copyResult src s) = None)"
proof (induction ss arbitrary: E)
  case Nil
  show ?case by simp
next
  case (Cons s ss)
  obtain E1 err where st: "stepEntries w src s E = (E1, err)" by (cases "stepEntries w src s E")
  have err: "err = None"
  proof (cases err)
    case (Some e)
    with st Cons.prems show ?thesis by (simp add: run_step_Some del: runEntries.simps)
  qed simp
  note run = run_step_None [OF st [unfolded err], of ss]
  from step_success [OF st [unfolded err]]
  have ok: "snd (copyResult src s) = None" and E1: "E1 = AList.delete (name s) E @ created src s"
    by simp_all
  from Cons.prems have "snd (snd (runEntries w src ss E1)) = None" by (simp only: run snd_conv)
  from Cons.IH [OF this]
  have a: "fst (runEntries w src ss E1) = filter (\<lambda>e. fst e \<notin> name ` set ss) E1 @ produced src ss"
    and b: "fst (snd (runEntries w src ss E1)) = ss"
    and c: "\<forall>s \<in> set ss. snd (copyResult src s) = None"
    by simp_all
  have "fst (runEntries w src (s # ss) E)
      = filter (\<lambda>e. fst e \<notin> name ` set ss) E1 @ produced src ss"
    by (simp only: run fst_conv a)
  then have "fst (runEntries w src (s # ss) E)
      = filter (\<lambda>e. fst e \<notin> name ` set ss) (AList.delete (name s) E)
        @ filter (\<lambda>e. fst e \<notin> name ` set ss) (created src s) @ produced src ss"
    by (simp only: E1 filter_append append_assoc)
  then have "fst (runEntries w src (s # ss) E)
      = filter (\<lambda>e. fst e \<notin> name ` set (s # ss)) E @ produced src (s # ss)"
    by (simp only: filter_delete_names produced.simps)
  moreover have "fst (snd (runEntries w src (s # ss) E)) = s # ss"
    by (simp only: run fst_conv snd_conv b)
  ultimately show ?case using ok c by simp
qed

lemma find_append:
  "find P (xs @ ys) = (case find P xs of Some y \<Rightarrow> Some y | None \<Rightarrow> find P ys)"
  by (induction xs) simp_all

text \<open>After a loop that completes, a name holds the source of the last skill of that name.\<close>

lemma run_lookup:
  "snd (snd (runEntries w src ss E)) = None \<Longrightarrow>
     map_of (fst (runEntries w src ss E)) n
       = (case find (\<lambda>s. name s = n) (rev ss) of None \<Rightarrow> map_of E n | Some s \<Rightarrow> src s)"
proof (induction ss arbitrary: E)
  case Nil
  show ?case by simp
next
  case (Cons s ss)
  obtain E1 err where st: "stepEntries w src s E = (E1, err)" by (cases "stepEntries w src s E")
  have err: "err = None"
  proof (cases err)
    case (Some e)
    with st Cons.prems show ?thesis by (simp add: run_step_Some del: runEntries.simps)
  qed simp
  note run = run_step_None [OF st [unfolded err], of ss]
  from step_success [OF st [unfolded err]]
  have ok: "snd (copyResult src s) = None" and E1: "E1 = AList.delete (name s) E @ created src s"
    by simp_all
  from copyResult_ok [OF ok] obtain d where d: "src s = Some d" "created src s = [(name s, d)]"
    by auto
  from Cons.prems have "snd (snd (runEntries w src ss E1)) = None" by (simp only: run snd_conv)
  from Cons.IH [OF this]
  have "map_of (fst (runEntries w src (s # ss) E)) n
      = (case find (\<lambda>s. name s = n) (rev ss) of None \<Rightarrow> map_of E1 n | Some s' \<Rightarrow> src s')"
    by (simp only: run fst_conv)
  also have "map_of E1 n = (if name s = n then src s else map_of E n)"
    by (cases "map_of E n") (auto simp: E1 d map_add_def delete_conv')
  finally show ?case
    by (simp add: find_append split: option.split)
qed

lemma produced_keys: "fst ` set (produced src ss) \<subseteq> name ` set ss"
proof (induction ss)
  case Nil
  show ?case by simp
next
  case (Cons s ss)
  then show ?case using created_keys [of src s] by auto
qed

lemma filter_produced: "filter (\<lambda>e. fst e \<notin> name ` set ss) (produced src ss) = []"
  using produced_keys [of src ss] by (auto simp: filter_empty_conv)

lemma created_removable:
  assumes "\<forall>d. src s = Some d \<longrightarrow> writableDirs d" and "(k, v) \<in> set (created src s)"
  shows "removeTree True v = None"
proof -
  from assms(2) obtain d err where "src s = Some d" and "copyTree d = (Some v, err)"
    by (cases "src s"; cases "copyTree (the (src s))")
      (auto simp: created_def copyResult_def split: option.splits)
  with assms(1) copy_removable(1) [of d] show ?thesis by blast
qed

lemma produced_removable:
  "\<forall>s \<in> set ss. \<forall>d. src s = Some d \<longrightarrow> writableDirs d \<Longrightarrow>
     (k, v) \<in> set (produced src ss) \<Longrightarrow> removeTree True v = None"
proof (induction ss)
  case Nil
  then show ?case by simp
next
  case (Cons s ss)
  then show ?case using created_removable [of src s k v] by auto
qed

text \<open>
  The loop completes when every copy does and what the install directory holds under
  the names of the skills can be removed.
\<close>

lemma run_succeeds:
  assumes "\<forall>s \<in> set ss. snd (copyResult src s) = None"
    and "\<forall>s \<in> set ss. \<forall>d. src s = Some d \<longrightarrow> writableDirs d"
    and "\<forall>(k, v) \<in> set E. k \<in> name ` set ss \<longrightarrow> removeTree True v = None"
  shows "snd (snd (runEntries True src ss E)) = None"
  using assms
proof (induction ss arbitrary: E)
  case Nil
  show ?case by simp
next
  case (Cons s ss)
  let ?E1 = "AList.delete (name s) E @ created src s"
  have ok: "snd (copyResult src s) = None" using Cons.prems(1) by simp
  have "\<forall>x. map_of E (name s) = Some x \<longrightarrow> removeTree True x = None"
  proof (intro allI impI)
    fix x assume "map_of E (name s) = Some x"
    then have "(name s, x) \<in> set E" by (rule map_of_SomeD)
    with Cons.prems(3) show "removeTree True x = None" by auto
  qed
  from step_free [OF this, of src]
  have st: "stepEntries True src s E = (?E1, None)" by (simp add: ok)
  have "\<forall>(k, v) \<in> set ?E1. k \<in> name ` set ss \<longrightarrow> removeTree True v = None"
  proof (clarify)
    fix k v j assume kv: "(name j, v) \<in> set ?E1" and j: "j \<in> set ss"
    show "removeTree True v = None"
    proof (cases "(name j, v) \<in> set (created src s)")
      case True
      with Cons.prems(2) created_removable [of src s "name j" v] show ?thesis by simp
    next
      case False
      with kv have "(name j, v) \<in> set E" by (auto simp: delete_as_filter)
      with Cons.prems(3) j show ?thesis by auto
    qed
  qed
  with Cons.prems have "snd (snd (runEntries True src ss ?E1)) = None"
    by (intro Cons.IH) simp_all
  then show ?case by (simp only: run_step_None [OF st] snd_conv)
qed

lemma run_append:
  "snd (snd (runEntries w src pre E)) = None \<Longrightarrow>
     runEntries w src (pre @ rest) E
       = (fst (runEntries w src rest (fst (runEntries w src pre E))),
          pre @ fst (snd (runEntries w src rest (fst (runEntries w src pre E)))),
          snd (snd (runEntries w src rest (fst (runEntries w src pre E)))))"
proof (induction pre arbitrary: E)
  case Nil
  show ?case by simp
next
  case (Cons s pre)
  obtain E1 err where st: "stepEntries w src s E = (E1, err)" by (cases "stepEntries w src s E")
  have err: "err = None"
  proof (cases err)
    case (Some e)
    with st Cons.prems show ?thesis by (simp add: run_step_Some del: runEntries.simps)
  qed simp
  note st' = st [unfolded err]
  from Cons.prems have "snd (snd (runEntries w src pre E1)) = None"
    by (simp only: run_step_None [OF st'] snd_conv)
  from Cons.IH [OF this] show ?case
    by (simp only: append_Cons run_step_None [OF st'] fst_conv snd_conv)
qed

text \<open>The loop when it fails: the skills before the failing one completed.\<close>

lemma run_failure:
  "snd (snd (runEntries w src ss E)) = Some e \<Longrightarrow>
     \<exists>pre f post. ss = pre @ f # post \<and> snd (snd (runEntries w src pre E)) = None
       \<and> stepEntries w src f (fst (runEntries w src pre E)) = (fst (runEntries w src ss E), Some e)
       \<and> fst (snd (runEntries w src ss E)) = pre"
proof (induction ss arbitrary: E)
  case Nil
  then show ?case by simp
next
  case (Cons s ss)
  obtain E1 err where st: "stepEntries w src s E = (E1, err)" by (cases "stepEntries w src s E")
  show ?case
  proof (cases err)
    case (Some e')
    with st Cons.prems have "e' = e" by (simp add: run_step_Some del: runEntries.simps)
    with st Some have "s # ss = [] @ s # ss \<and> snd (snd (runEntries w src [] E)) = None
       \<and> stepEntries w src s (fst (runEntries w src [] E)) = (fst (runEntries w src (s # ss) E), Some e)
       \<and> fst (snd (runEntries w src (s # ss) E)) = []"
      by (simp add: run_step_Some del: runEntries.simps(2))
    then show ?thesis by blast
  next
    case None
    note st' = st [unfolded None]
    note run = run_step_None [OF st']
    from Cons.prems have "snd (snd (runEntries w src ss E1)) = Some e"
      by (simp only: run snd_conv)
    from Cons.IH [OF this] obtain pre f post where ss: "ss = pre @ f # post"
      and p: "snd (snd (runEntries w src pre E1)) = None"
      and f: "stepEntries w src f (fst (runEntries w src pre E1)) = (fst (runEntries w src ss E1), Some e)"
      and d: "fst (snd (runEntries w src ss E1)) = pre"
      by blast
    have "s # ss = (s # pre) @ f # post" using ss by simp
    moreover have "snd (snd (runEntries w src (s # pre) E)) = None"
      by (simp only: run snd_conv p)
    moreover have "stepEntries w src f (fst (runEntries w src (s # pre) E))
        = (fst (runEntries w src (s # ss) E), Some e)"
      by (simp only: run fst_conv f)
    moreover have "fst (snd (runEntries w src (s # ss) E)) = s # pre"
      by (simp only: run fst_conv snd_conv d)
    ultimately show ?thesis by blast
  qed
qed

text \<open>In an install directory that is not writable the loop changes nothing.\<close>

lemma step_False: "\<exists>e. stepEntries False src s E = (E, Some e)"
proof (cases "map_of E (name s)")
  case None
  then show ?thesis
    by (cases "src s") (simp_all add: stepEntries_def copyInto_def created_def copyResult_def)
next
  case (Some x)
  then show ?thesis by (simp add: stepEntries_def removeTree_False update_triv)
qed

lemma run_False: "fst (runEntries False src ss E) = E"
proof (cases ss)
  case Nil
  then show ?thesis by simp
next
  case (Cons s rest)
  from step_False [of src s E] obtain e where "stepEntries False src s E = (E, Some e)" by blast
  with Cons show ?thesis by simp
qed

lemma update_append_in:
  "k \<in> fst ` set xs \<Longrightarrow> AList.update k v (xs @ ys) = AList.update k v xs @ ys"
  by (induction xs) auto

lemma set_update_subset: "set (AList.update k v al) \<subseteq> insert (k, v) (set al)"
  by (induction al) auto

text \<open>A second loop after one that completed.\<close>

lemma run_idem_completed:
  assumes hw: "\<forall>s \<in> set ss. \<forall>d. src s = Some d \<longrightarrow> writableDirs d"
    and none: "snd (snd (runEntries True src ss E)) = None"
  shows "runEntries True src ss (fst (runEntries True src ss E)) = runEntries True src ss E"
proof -
  let ?N = "name ` set ss"
  let ?P = "produced src ss"
  let ?X = "fst (runEntries True src ss E)"
  from run_success [OF none]
  have X: "?X = filter (\<lambda>e. fst e \<notin> ?N) E @ ?P"
    and d: "fst (snd (runEntries True src ss E)) = ss"
    and ok: "\<forall>s \<in> set ss. snd (copyResult src s) = None"
    by simp_all
  have "\<forall>(k, v) \<in> set ?X. k \<in> ?N \<longrightarrow> removeTree True v = None"
    unfolding X using produced_removable [OF hw] by auto
  with ok hw have none2: "snd (snd (runEntries True src ss ?X)) = None"
    by (rule run_succeeds)
  from run_success [OF none2]
  have X2: "fst (runEntries True src ss ?X) = filter (\<lambda>e. fst e \<notin> ?N) ?X @ ?P"
    and d2: "fst (snd (runEntries True src ss ?X)) = ss"
    by simp_all
  have "filter (\<lambda>e. fst e \<notin> ?N) ?X = filter (\<lambda>e. fst e \<notin> ?N) E"
    unfolding X by (simp add: filter_produced)
  with X2 X have "fst (runEntries True src ss ?X) = ?X" by simp
  with d d2 none none2 show ?thesis by (simp add: prod_eq_iff)
qed

text \<open>
  A second loop after one that failed at the skill \<open>f\<close>, whose target could not be
  removed: the target was in the install directory before the first loop.
\<close>

lemma run_idem_blocked:
  assumes hw: "\<forall>s \<in> set pre. \<forall>d. src s = Some d \<longrightarrow> writableDirs d"
    and pre: "snd (snd (runEntries True src pre E)) = None"
    and at: "map_of (fst (runEntries True src pre E)) (name f) = Some x"
    and blocked: "removeTree True x = Some x'"
  shows "snd (snd (runEntries True src pre (AList.update (name f) x' (fst (runEntries True src pre E))))) = None
    \<and> fst (runEntries True src pre (AList.update (name f) x' (fst (runEntries True src pre E))))
        = AList.update (name f) x' (fst (runEntries True src pre E))
    \<and> stepEntries True src f (AList.update (name f) x' (fst (runEntries True src pre E)))
        = (AList.update (name f) x' (fst (runEntries True src pre E)), Some EACCES)"
proof -
  let ?N = "name ` set pre"
  let ?P = "produced src pre"
  let ?A = "filter (\<lambda>e. fst e \<notin> ?N) E"
  let ?Xk = "fst (runEntries True src pre E)"
  let ?n = "name f"
  let ?X = "AList.update ?n x' ?Xk"
  from run_success [OF pre]
  have Xk: "?Xk = ?A @ ?P"
    and ok: "\<forall>s \<in> set pre. snd (copyResult src s) = None"
    by simp_all
  from at have mem: "(?n, x) \<in> set ?Xk" by (rule map_of_SomeD)
  have notP: "(?n, x) \<notin> set ?P"
    using produced_removable [OF hw, of ?n x] blocked by auto
  with mem have inA: "(?n, x) \<in> set ?A" unfolding Xk by simp
  then have nN: "?n \<notin> ?N" by simp
  from inA have key: "?n \<in> fst ` set ?A" by force
  have X: "?X = AList.update ?n x' ?A @ ?P"
    unfolding Xk using key by (rule update_append_in)
  have keysA: "\<forall>e \<in> set (AList.update ?n x' ?A). fst e \<notin> ?N"
    using set_update_subset [of ?n x' ?A] nN by auto
  have rem: "\<forall>(k, v) \<in> set ?X. k \<in> ?N \<longrightarrow> removeTree True v = None"
  proof (clarify)
    fix k v j assume kv: "(name j, v) \<in> set ?X" and j: "j \<in> set pre"
    from kv have "(name j, v) \<in> set (AList.update ?n x' ?A) \<or> (name j, v) \<in> set ?P"
      by (simp only: X set_append Un_iff)
    then show "removeTree True v = None"
    proof
      assume "(name j, v) \<in> set (AList.update ?n x' ?A)"
      with keysA have "fst (name j, v) \<notin> ?N" by (rule bspec)
      with j show ?thesis by simp
    next
      assume "(name j, v) \<in> set ?P"
      with hw show ?thesis by (rule produced_removable)
    qed
  qed
  from ok hw rem have none2: "snd (snd (runEntries True src pre ?X)) = None"
    by (rule run_succeeds)
  from run_success [OF none2]
  have "fst (runEntries True src pre ?X) = filter (\<lambda>e. fst e \<notin> ?N) ?X @ ?P"
    by simp
  also have "filter (\<lambda>e. fst e \<notin> ?N) ?X = AList.update ?n x' ?A"
  proof -
    have "filter (\<lambda>e. fst e \<notin> ?N) (AList.update ?n x' ?A) = AList.update ?n x' ?A"
      using keysA by (simp only: filter_id_conv)
    then show ?thesis
      by (simp only: X filter_append filter_produced append_Nil2)
  qed
  finally have same: "fst (runEntries True src pre ?X) = ?X"
    by (simp only: X)
  have at': "map_of ?X ?n = Some x'" by (simp add: update_conv')
  from removeTree_idem(1) [of x] blocked have "removeTree True x' = Some x'" by blast
  with at' have "stepEntries True src f ?X = (?X, Some EACCES)"
    by (simp add: stepEntries_def update_triv)
  with none2 same show ?thesis by simp
qed

text \<open>
  A second loop after one that failed at the skill \<open>f\<close>, whose copy failed.
\<close>

lemma run_idem_copy_failed:
  assumes hw: "\<forall>s \<in> set pre. \<forall>d. src s = Some d \<longrightarrow> writableDirs d"
    and hf: "\<forall>d. src f = Some d \<longrightarrow> writableDirs d"
    and pre: "snd (snd (runEntries True src pre E)) = None"
  shows "snd (snd (runEntries True src pre
            (AList.delete (name f) (fst (runEntries True src pre E)) @ created src f))) = None
    \<and> stepEntries True src f (fst (runEntries True src pre
            (AList.delete (name f) (fst (runEntries True src pre E)) @ created src f)))
        = (AList.delete (name f) (fst (runEntries True src pre E)) @ created src f,
           snd (copyResult src f))"
proof -
  let ?N = "name ` set pre"
  let ?P = "produced src pre"
  let ?A = "filter (\<lambda>e. fst e \<notin> ?N) E"
  let ?Xk = "fst (runEntries True src pre E)"
  let ?n = "name f"
  let ?c = "created src f"
  let ?X = "AList.delete ?n ?Xk @ ?c"
  from run_success [OF pre]
  have Xk: "?Xk = ?A @ ?P"
    and ok: "\<forall>s \<in> set pre. snd (copyResult src s) = None"
    by simp_all
  have remP: "\<And>k v. (k, v) \<in> set ?P \<Longrightarrow> removeTree True v = None"
    using produced_removable [OF hw] by blast
  have remc: "\<And>k v. (k, v) \<in> set ?c \<Longrightarrow> removeTree True v = None"
    using created_removable [of src f] hf by blast
  have keysP: "\<And>e. e \<in> set ?P \<Longrightarrow> fst e \<in> ?N"
    using produced_keys [of src pre] by auto
  have keysc: "\<And>e. e \<in> set ?c \<Longrightarrow> fst e = ?n"
    using created_keys [of src f] by auto
  have rem: "\<forall>(k, v) \<in> set ?X. k \<in> ?N \<longrightarrow> removeTree True v = None"
    unfolding Xk using remP remc by (auto simp: delete_as_filter)
  from ok hw rem have none2: "snd (snd (runEntries True src pre ?X)) = None"
    by (rule run_succeeds)
  let ?Y = "fst (runEntries True src pre ?X)"
  from run_success [OF none2]
  have Y: "?Y = filter (\<lambda>e. fst e \<notin> ?N) ?X @ ?P"
    by simp
  have f1: "filter (\<lambda>e. fst e \<notin> ?N) (AList.delete ?n ?Xk) = AList.delete ?n ?A"
    unfolding Xk using keysP by (auto simp: delete_as_filter filter_empty_conv intro: filter_cong)
  have Y': "?Y = AList.delete ?n ?A @ filter (\<lambda>e. fst e \<notin> ?N) ?c @ ?P"
    unfolding Y by (simp only: filter_append f1 append_assoc)
  have free: "\<forall>y. map_of ?Y ?n = Some y \<longrightarrow> removeTree True y = None"
  proof (intro allI impI)
    fix y assume "map_of ?Y ?n = Some y"
    then have "(?n, y) \<in> set ?Y" by (rule map_of_SomeD)
    then have "(?n, y) \<in> set ?c \<or> (?n, y) \<in> set ?P"
      unfolding Y' by (auto simp: delete_as_filter)
    with remP remc show "removeTree True y = None" by blast
  qed
  have c0: "filter (\<lambda>e. fst e \<notin> ?N \<and> fst e \<noteq> ?n) ?c = []"
    using keysc by (auto simp: filter_empty_conv)
  have "AList.delete ?n ?Y = AList.delete ?n ?A @ AList.delete ?n ?P"
    unfolding Y' by (simp add: delete_as_filter c0)
  also have "\<dots> = AList.delete ?n ?Xk"
    unfolding Xk by (simp add: delete_as_filter)
  finally have "AList.delete ?n ?Y @ ?c = ?X" by simp
  with step_free [OF free, of src]
  have "stepEntries True src f ?Y = (?X, snd (copyResult src f))" by simp
  with none2 show ?thesis by simp
qed

text \<open>
  The second loop: it starts from the entries the first one left in the install
  directory, and it leaves them and ends as the first did, when every directory of the
  sources that is not empty is writable.
\<close>

lemma run_idem:
  assumes hw: "\<forall>s \<in> set ss. \<forall>d. src s = Some d \<longrightarrow> writableDirs d"
  shows "runEntries w src ss (fst (runEntries w src ss E)) = runEntries w src ss E"
proof (cases w)
  case False
  then show ?thesis by (simp add: run_False)
next
  case True
  show ?thesis
  proof (cases "snd (snd (runEntries True src ss E))")
    case None
    with hw True show ?thesis by (simp add: run_idem_completed)
  next
    case (Some e)
    from run_failure [OF Some] obtain pre f post where ss: "ss = pre @ f # post"
      and p: "snd (snd (runEntries True src pre E)) = None"
      and st: "stepEntries True src f (fst (runEntries True src pre E))
          = (fst (runEntries True src ss E), Some e)"
      and d: "fst (snd (runEntries True src ss E)) = pre"
      by blast
    let ?Xk = "fst (runEntries True src pre E)"
    let ?X = "fst (runEntries True src ss E)"
    have hwp: "\<forall>s \<in> set pre. \<forall>d. src s = Some d \<longrightarrow> writableDirs d"
      and hwf: "\<forall>d. src f = Some d \<longrightarrow> writableDirs d"
      using hw ss by auto
    have again: "snd (snd (runEntries True src pre ?X)) = None
        \<and> stepEntries True src f (fst (runEntries True src pre ?X)) = (?X, Some e)"
    proof (cases "\<forall>x. map_of ?Xk (name f) = Some x \<longrightarrow> removeTree True x = None")
      case True
      from step_free [OF True, of src] st
      have X: "?X = AList.delete (name f) ?Xk @ created src f"
        and e: "snd (copyResult src f) = Some e"
        by simp_all
      from run_idem_copy_failed [OF hwp hwf p] show ?thesis
        by (simp only: X [symmetric] e)
    next
      case False
      then obtain x x' where at: "map_of ?Xk (name f) = Some x" and b: "removeTree True x = Some x'"
        by auto
      with st have X: "?X = AList.update (name f) x' ?Xk" and e: "e = EACCES"
        by (simp_all add: stepEntries_def)
      from run_idem_blocked [OF hwp p at b] show ?thesis
        by (simp only: X [symmetric] e)
    qed
    then have p2: "snd (snd (runEntries True src pre ?X)) = None"
      and st2: "stepEntries True src f (fst (runEntries True src pre ?X)) = (?X, Some e)"
      by simp_all
    have "runEntries True src ss ?X = (?X, pre, Some e)"
      unfolding ss [unfolded append_Cons]
      using run_append [OF p2, of "f # post"] st2 ss by (simp del: runEntries.simps add: run_step_Some)
    moreover have "runEntries True src ss E = (?X, pre, Some e)"
      using d Some by (simp add: prod_eq_iff)
    ultimately show ?thesis using True by simp
  qed
qed

section \<open>Properties of the installer\<close>

text \<open>
  C6, as the specification states it: a second installation of the same selection
  leaves the destination as the first left it. The copy of a skill keeps the modes of
  its source. The skill \<open>docs\<close> holds the directory \<open>assets\<close>, which is read-only
  and not empty. The first installation completes. The second removes the installed
  \<open>skill.md\<close>, cannot remove \<open>assets\<close>, and ends with \<open>EACCES\<close> before it copies:
  the destination has lost \<open>skill.md\<close>.
\<close>

theorem readonly_source_counterexample:
  "valid_name (name docsSkill)
   \<and> outside (resolve [''work''] (path_join (processCwd [''work'']) CLAUDE_SKILLS_DIR))
        (resolve [''work''] (path docsSkill))
   \<and> snd (installSkills [''work''] [docsSkill] (processCwd [''work'']) readOnlyFs) = None
   \<and> nodeAt (fst (fst (installSkills [''work''] [docsSkill] (processCwd [''work'']) readOnlyFs)))
        [''work'', ''.claude'', ''skills'', ''docs'']
      = nodeAt readOnlyFs [''repo'', ''docs'']
   \<and> nodeAt (fst (fst (installSkills [''work''] [docsSkill] (processCwd [''work'']) readOnlyFs)))
        [''repo'', ''docs'']
      = nodeAt readOnlyFs [''repo'', ''docs'']
   \<and> snd (installSkills [''work''] [docsSkill] (processCwd [''work''])
        (fst (fst (installSkills [''work''] [docsSkill] (processCwd [''work'']) readOnlyFs))))
      = Some EACCES
   \<and> nodeAt (fst (fst (installSkills [''work''] [docsSkill] (processCwd [''work''])
          (fst (fst (installSkills [''work''] [docsSkill] (processCwd [''work'']) readOnlyFs))))))
        [''work'', ''.claude'', ''skills'', ''docs'']
      = Some (Dir True True [(''assets'', Dir True False [(''notes.txt'', File (Some ''notes''))])])
   \<and> fst (fst (installSkills [''work''] [docsSkill] (processCwd [''work''])
          (fst (fst (installSkills [''work''] [docsSkill] (processCwd [''work'']) readOnlyFs)))))
      \<noteq> fst (fst (installSkills [''work''] [docsSkill] (processCwd [''work'']) readOnlyFs))"
proof -
  let ?R1 = "installSkills [''work''] [docsSkill] (processCwd [''work'']) readOnlyFs"
  let ?R2 = "installSkills [''work''] [docsSkill] (processCwd [''work'']) (fst (fst ?R1))"
  let ?t = "[''work'', ''.claude'', ''skills'', ''docs'']"
  have v: "valid_name (name docsSkill)" by code_simp
  have o: "outside (resolve [''work''] (path_join (processCwd [''work'']) CLAUDE_SKILLS_DIR))
        (resolve [''work''] (path docsSkill))" by code_simp
  have a: "snd ?R1 = None" by code_simp
  have b: "nodeAt (fst (fst ?R1)) ?t = nodeAt readOnlyFs [''repo'', ''docs'']" by code_simp
  have c: "nodeAt (fst (fst ?R1)) [''repo'', ''docs''] = nodeAt readOnlyFs [''repo'', ''docs'']"
    by code_simp
  have d: "snd ?R2 = Some EACCES" by code_simp
  have e: "nodeAt (fst (fst ?R2)) ?t
      = Some (Dir True True [(''assets'', Dir True False [(''notes.txt'', File (Some ''notes''))])])"
    by code_simp
  have f: "fst (fst ?R2) \<noteq> fst (fst ?R1)" by code_simp
  from v o a b c d e f show ?thesis by blast
qed

text \<open>
  C6, amended: when every directory of the sources that is not empty is writable,
  installing the same selection a second time, from sources that the first installation
  could not change because they lie outside the install directory, gives the file
  system, the printed lines and the outcome of the first installation again, also when
  the installation fails. The names are those of directory entries.
\<close>

theorem install_is_idempotent:
  assumes ok: "\<forall>s \<in> set selected. valid_name (name s)
        \<and> outside (resolve cwd (path_join targetDir CLAUDE_SKILLS_DIR)) (resolve cwd (path s))"
    and hw: "\<forall>s \<in> set selected. \<forall>d. nodeAt root (resolve cwd (path s)) = Some d \<longrightarrow> writableDirs d"
  shows "installSkills cwd selected targetDir (fst (fst (installSkills cwd selected targetDir root)))
      = installSkills cwd selected targetDir root"
proof (cases "ensureDir cwd (path_join targetDir CLAUDE_SKILLS_DIR) root")
  case (Inl e)
  then show ?thesis by (simp add: installSkills_def Let_def)
next
  case (Inr r1)
  let ?tp = "path_join targetDir CLAUDE_SKILLS_DIR"
  let ?tb = "resolve cwd ?tp"
  let ?src = "\<lambda>s. nodeAt root (resolve cwd (path s))"
  from installSkills_effect [OF ok Inr] obtain l w E
    where dir: "nodeAt r1 ?tb = Some (Dir l w E)"
      and first: "installSkills cwd selected targetDir root
        = ((setEntries ?tb (fst (runEntries w ?src selected E)) r1,
            map displayName (fst (snd (runEntries w ?src selected E)))),
           snd (snd (runEntries w ?src selected E)))"
    by blast
  let ?X = "fst (runEntries w ?src selected E)"
  let ?R = "setEntries ?tb ?X r1"
  have e: "ensureDirAt ?tb root = Inr r1" using Inr by (simp add: ensureDir_def)
  have dirR: "nodeAt ?R ?tb = Some (Dir l w ?X)"
    using dir by (rule setEntries_at)
  then have ensR: "ensureDir cwd ?tp ?R = Inr ?R"
    by (simp add: ensureDir_def ensureDirAt_exists)
  have same: "nodeAt ?R (resolve cwd (path s)) = ?src s" if "s \<in> set selected" for s
  proof -
    from ok that have o: "outside ?tb (resolve cwd (path s))" by simp
    then have "nodeAt ?R (resolve cwd (path s)) = nodeAt r1 (resolve cwd (path s))"
      by (rule setEntries_other)
    also from o have "\<dots> = nodeAt root (resolve cwd (path s))"
      by (intro ensureDirAt_other [OF e]) (simp_all add: outside_def)
    finally show ?thesis .
  qed
  have ok2: "\<forall>s \<in> set selected. valid_name (name s) \<and> outside ?tb (resolve cwd (path s))
      \<and> ?src s = nodeAt ?R (resolve cwd (path s))"
    using ok same by simp
  have idem: "runEntries w ?src selected ?X = runEntries w ?src selected E"
    using hw by (rule run_idem)
  have "installSkills cwd selected targetDir ?R = installLoop cwd ?tp selected (?R, [])"
    using ensR by (simp add: installSkills_def Let_def)
  also have "\<dots> = ((setEntries ?tb (fst (runEntries w ?src selected ?X)) ?R,
        [] @ map displayName (fst (snd (runEntries w ?src selected ?X)))),
      snd (snd (runEntries w ?src selected ?X)))"
    using refl ok2 dirR by (rule install_loop_effect)
  also have "\<dots> = ((?R, map displayName (fst (snd (runEntries w ?src selected E)))),
      snd (snd (runEntries w ?src selected E)))"
    by (simp only: idem setEntries_twice append_Nil)
  finally show ?thesis by (simp add: first)
qed

text \<open>
  C6 at the example: two skills, the second of which fails to copy, are installed
  twice; the second installation changes nothing.
\<close>

theorem install_is_idempotent_witness:
  "valid_name (name (exampleSkill ''A'' ''bar'' ''Bar''))
   \<and> outside (resolve [''work''] (path_join (processCwd [''work'']) CLAUDE_SKILLS_DIR))
        (resolve [''work''] (path (exampleSkill ''A'' ''bar'' ''Bar'')))
   \<and> valid_name (name (exampleSkill ''B'' ''foo'' ''Foo of B''))
   \<and> outside (resolve [''work''] (path_join (processCwd [''work'']) CLAUDE_SKILLS_DIR))
        (resolve [''work''] (path (exampleSkill ''B'' ''foo'' ''Foo of B'')))
   \<and> nodeAt exampleFs (resolve [''work''] (path (exampleSkill ''A'' ''bar'' ''Bar'')))
      = Some (exampleSkillDir ''name: Bar'')
   \<and> writableDirs (exampleSkillDir ''name: Bar'')
   \<and> nodeAt exampleFs (resolve [''work''] (path (exampleSkill ''B'' ''foo'' ''Foo of B'')))
      = Some (Dir True True [(''skill.md'', File (Some ''name: Foo of B'')), (''secret'', File None)])
   \<and> writableDirs (Dir True True [(''skill.md'', File (Some ''name: Foo of B'')), (''secret'', File None)])
   \<and> installSkills [''work'']
        [exampleSkill ''A'' ''bar'' ''Bar'', exampleSkill ''B'' ''foo'' ''Foo of B'']
        (processCwd [''work''])
        (fst (fst (installSkills [''work'']
           [exampleSkill ''A'' ''bar'' ''Bar'', exampleSkill ''B'' ''foo'' ''Foo of B'']
           (processCwd [''work'']) exampleFs)))
      = installSkills [''work'']
          [exampleSkill ''A'' ''bar'' ''Bar'', exampleSkill ''B'' ''foo'' ''Foo of B'']
          (processCwd [''work'']) exampleFs
   \<and> nodeAt (fst (fst (installSkills [''work'']
          [exampleSkill ''A'' ''bar'' ''Bar'', exampleSkill ''B'' ''foo'' ''Foo of B'']
          (processCwd [''work'']) exampleFs))) [''work'', ''.claude'', ''skills'', ''bar'']
      = Some (exampleSkillDir ''name: Bar'')
   \<and> snd (installSkills [''work'']
          [exampleSkill ''A'' ''bar'' ''Bar'', exampleSkill ''B'' ''foo'' ''Foo of B'']
          (processCwd [''work'']) exampleFs) = Some EACCES"
proof -
  let ?bar = "exampleSkill ''A'' ''bar'' ''Bar''"
  let ?foo = "exampleSkill ''B'' ''foo'' ''Foo of B''"
  let ?fooDir = "Dir True True [(''skill.md'', File (Some ''name: Foo of B'')), (''secret'', File None)]"
  let ?tb = "resolve [''work''] (path_join (processCwd [''work'']) CLAUDE_SKILLS_DIR)"
  have v1: "valid_name (name ?bar)" and o1: "outside ?tb (resolve [''work''] (path ?bar))"
    and v2: "valid_name (name ?foo)" and o2: "outside ?tb (resolve [''work''] (path ?foo))"
    by code_simp+
  then have h: "\<forall>s \<in> set [?bar, ?foo]. valid_name (name s)
      \<and> outside ?tb (resolve [''work''] (path s))"
    by simp
  have s1: "nodeAt exampleFs (resolve [''work''] (path ?bar)) = Some (exampleSkillDir ''name: Bar'')"
    and w1: "writableDirs (exampleSkillDir ''name: Bar'')"
    and s2: "nodeAt exampleFs (resolve [''work''] (path ?foo)) = Some ?fooDir"
    and w2: "writableDirs ?fooDir"
    by code_simp+
  then have hw: "\<forall>s \<in> set [?bar, ?foo]. \<forall>d.
      nodeAt exampleFs (resolve [''work''] (path s)) = Some d \<longrightarrow> writableDirs d"
    by simp
  have first: "nodeAt (fst (fst (installSkills [''work''] [?bar, ?foo]
      (processCwd [''work'']) exampleFs))) [''work'', ''.claude'', ''skills'', ''bar'']
      = Some (exampleSkillDir ''name: Bar'')"
    by code_simp
  have err: "snd (installSkills [''work''] [?bar, ?foo] (processCwd [''work'']) exampleFs)
      = Some EACCES"
    by code_simp
  from install_is_idempotent [OF h hw] v1 o1 v2 o2 s1 w1 s2 w2 first err
  show ?thesis by blast
qed

lemma find_last_named:
  assumes "\<forall>s \<in> set zs. name s \<noteq> name b"
  shows "find (\<lambda>s. name s = name b) (rev (xs @ b # zs)) = Some b"
proof -
  have "find (\<lambda>s. name s = name b) (rev zs) = None"
    using assms by (simp add: find_None_iff)
  then show ?thesis by (simp add: find_append)
qed

text \<open>
  C10: two skills with the same name have the same target path, the directory of that
  name in \<open>.claude/skills\<close> below the destination root. When the installation
  completes, the path holds the source tree of the one listed last.
\<close>

theorem same_name_last_wins:
  assumes ok: "\<forall>s \<in> set (xs @ a # ys @ b # zs). valid_name (name s)
        \<and> outside (resolve cwd (path_join targetDir CLAUDE_SKILLS_DIR)) (resolve cwd (path s))"
    and same: "name a = name b"
    and later: "\<forall>s \<in> set zs. name s \<noteq> name b"
    and fin: "installSkills cwd (xs @ a # ys @ b # zs) targetDir root = ((root', out), None)"
  shows "path_join (path_join targetDir CLAUDE_SKILLS_DIR) (name a)
        = path_join (path_join targetDir CLAUDE_SKILLS_DIR) (name b)
     \<and> resolve cwd (path_join (path_join targetDir CLAUDE_SKILLS_DIR) (name b))
        = resolve cwd targetDir @ [''.claude'', ''skills'', name b]
     \<and> nodeAt root' (resolve cwd targetDir @ [''.claude'', ''skills'', name b])
        = nodeAt root (resolve cwd (path b))
     \<and> nodeAt root (resolve cwd (path b)) \<noteq> None"
proof -
  let ?sel = "xs @ a # ys @ b # zs"
  let ?tp = "path_join targetDir CLAUDE_SKILLS_DIR"
  let ?tb = "resolve cwd ?tp"
  let ?src = "\<lambda>s. nodeAt root (resolve cwd (path s))"
  have vb: "valid_name (name b)" using ok by simp
  have tb: "?tb = resolve cwd targetDir @ [''.claude'', ''skills'']"
    by (rule resolve_targetPath)
  have t: "resolve cwd (path_join ?tp (name b)) = resolve cwd targetDir @ [''.claude'', ''skills'', name b]"
    using resolve_path_join [OF vb, of cwd ?tp] tb by simp
  obtain r1 where ens: "ensureDir cwd ?tp root = Inr r1"
    using fin by (cases "ensureDir cwd ?tp root") (simp_all add: installSkills_def Let_def)
  from installSkills_effect [OF ok ens] obtain l w E
    where dir: "nodeAt r1 ?tb = Some (Dir l w E)"
      and eff: "installSkills cwd ?sel targetDir root
        = ((setEntries ?tb (fst (runEntries w ?src ?sel E)) r1,
            map displayName (fst (snd (runEntries w ?src ?sel E)))),
           snd (snd (runEntries w ?src ?sel E)))"
    by blast
  from eff fin have root': "root' = setEntries ?tb (fst (runEntries w ?src ?sel E)) r1"
    and noerr: "snd (snd (runEntries w ?src ?sel E)) = None"
    by simp_all
  have "nodeAt root' ?tb = Some (Dir l w (fst (runEntries w ?src ?sel E)))"
    unfolding root' using dir by (rule setEntries_at)
  then have "nodeAt root' (?tb @ [name b]) = map_of (fst (runEntries w ?src ?sel E)) (name b)"
    by (simp add: nodeAt_snoc)
  also have "\<dots> = (case find (\<lambda>s. name s = name b) (rev ?sel) of
      None \<Rightarrow> map_of E (name b) | Some s \<Rightarrow> ?src s)"
    using noerr by (rule run_lookup)
  also have "find (\<lambda>s. name s = name b) (rev ?sel) = Some b"
    using find_last_named [OF later, of "xs @ a # ys"] by simp
  finally have inst: "nodeAt root' (resolve cwd targetDir @ [''.claude'', ''skills'', name b])
      = nodeAt root (resolve cwd (path b))"
    by (simp add: tb)
  have "snd (copyResult ?src b) = None"
    using run_success [OF noerr] by simp
  then have ex: "nodeAt root (resolve cwd (path b)) \<noteq> None"
    using copyResult_ok [of ?src b] by auto
  from same t inst ex show ?thesis by simp
qed

text \<open>
  C10 at the example: \<open>foo\<close> of the category \<open>A\<close> and \<open>foo\<close> of the category \<open>C\<close>
  are both selected; the installed \<open>foo\<close> is the one of \<open>C\<close>.
\<close>

theorem same_name_last_wins_witness:
  "valid_name ''foo'' \<and> valid_name ''bar''
   \<and> outside (resolve [''work''] (path_join (processCwd [''work'']) CLAUDE_SKILLS_DIR))
        (resolve [''work''] (path (exampleSkill ''A'' ''foo'' ''Foo of A'')))
   \<and> outside (resolve [''work''] (path_join (processCwd [''work'']) CLAUDE_SKILLS_DIR))
        (resolve [''work''] (path (exampleSkill ''A'' ''bar'' ''Bar'')))
   \<and> outside (resolve [''work''] (path_join (processCwd [''work'']) CLAUDE_SKILLS_DIR))
        (resolve [''work''] (path (exampleSkill ''C'' ''foo'' ''Foo of C'')))
   \<and> category (exampleSkill ''A'' ''foo'' ''Foo of A'') \<noteq> category (exampleSkill ''C'' ''foo'' ''Foo of C'')
   \<and> snd (installSkills [''work'']
        [exampleSkill ''A'' ''foo'' ''Foo of A'', exampleSkill ''A'' ''bar'' ''Bar'',
         exampleSkill ''C'' ''foo'' ''Foo of C'']
        (processCwd [''work'']) exampleFs) = None
   \<and> resolve [''work''] (path_join (path_join (processCwd [''work'']) CLAUDE_SKILLS_DIR) ''foo'')
      = [''work'', ''.claude'', ''skills'', ''foo'']
   \<and> nodeAt (fst (fst (installSkills [''work'']
        [exampleSkill ''A'' ''foo'' ''Foo of A'', exampleSkill ''A'' ''bar'' ''Bar'',
         exampleSkill ''C'' ''foo'' ''Foo of C'']
        (processCwd [''work'']) exampleFs))) [''work'', ''.claude'', ''skills'', ''foo'']
      = Some (exampleSkillDir ''name: Foo of C'')"
proof -
  let ?a = "exampleSkill ''A'' ''foo'' ''Foo of A''"
  let ?m = "exampleSkill ''A'' ''bar'' ''Bar''"
  let ?b = "exampleSkill ''C'' ''foo'' ''Foo of C''"
  let ?tb = "resolve [''work''] (path_join (processCwd [''work'']) CLAUDE_SKILLS_DIR)"
  let ?R = "installSkills [''work''] [?a, ?m, ?b] (processCwd [''work'']) exampleFs"
  have v: "valid_name ''foo''" "valid_name ''bar''"
    by code_simp+
  have o: "outside ?tb (resolve [''work''] (path ?a))" "outside ?tb (resolve [''work''] (path ?m))"
    "outside ?tb (resolve [''work''] (path ?b))"
    by code_simp+
  have n: "name ?a = ''foo''" "name ?m = ''bar''" "name ?b = ''foo''"
    by (simp_all add: exampleSkill_def)
  have c: "category ?a \<noteq> category ?b" by (simp add: exampleSkill_def)
  have h: "\<forall>s \<in> set ([] @ ?a # [?m] @ ?b # []). valid_name (name s)
      \<and> outside ?tb (resolve [''work''] (path s))"
    using v o n by simp
  have same: "name ?a = name ?b" using n by simp
  have later: "\<forall>s \<in> set []. name s \<noteq> name ?b" by simp
  have ok: "snd ?R = None" by code_simp
  then have fin: "installSkills [''work''] ([] @ ?a # [?m] @ ?b # []) (processCwd [''work'']) exampleFs
      = ((fst (fst ?R), snd (fst ?R)), None)"
    by (simp add: prod_eq_iff)
  have wd: "resolve [''work''] (processCwd [''work'']) = [''work'']"
    and src: "nodeAt exampleFs (resolve [''work''] (path ?b)) = Some (exampleSkillDir ''name: Foo of C'')"
    by code_simp+
  from same_name_last_wins [OF h same later fin]
  have "resolve [''work''] (path_join (path_join (processCwd [''work'']) CLAUDE_SKILLS_DIR) (name ?b))
        = resolve [''work''] (processCwd [''work'']) @ [''.claude'', ''skills'', name ?b]"
    and "nodeAt (fst (fst ?R)) (resolve [''work''] (processCwd [''work'']) @ [''.claude'', ''skills'', name ?b])
        = nodeAt exampleFs (resolve [''work''] (path ?b))"
    by blast+
  then have "resolve [''work''] (path_join (path_join (processCwd [''work'']) CLAUDE_SKILLS_DIR) ''foo'')
        = [''work'', ''.claude'', ''skills'', ''foo'']"
    and "nodeAt (fst (fst ?R)) [''work'', ''.claude'', ''skills'', ''foo'']
        = Some (exampleSkillDir ''name: Foo of C'')"
    by (simp_all only: n wd src append.simps)
  with v o c ok show ?thesis by blast
qed
lemma installLoop_append:
  "installLoop cwd tp pre st = (st', None) \<Longrightarrow>
     installLoop cwd tp (pre @ rest) st = installLoop cwd tp rest st'"
proof (induction pre arbitrary: st)
  case Nil
  then show ?case by simp
next
  case (Cons s pre)
  obtain r out where st: "st = (r, out)" by (cases st)
  from Cons.prems show ?case
    unfolding st append_Cons installLoop_Cons
    by (auto split: prod.splits option.splits intro: Cons.IH)
qed

lemma map_of_step_other:
  "n \<noteq> name s \<Longrightarrow> map_of (fst (stepEntries w src s X)) n = map_of X n"
  by (cases "map_of X n")
    (auto simp: stepEntries_def copyInto_def created_def update_conv' delete_conv' map_add_def
      split: option.splits)

text \<open>
  C7, as the specification states it: when copying the skill \<open>N\<close> fails, the skills
  before it remain installed. The target of a skill is named by the skill alone, so a
  skill before \<open>N\<close> with the name of \<open>N\<close> is removed before \<open>N\<close> is copied. Here
  \<open>foo\<close> of \<open>A\<close> installs, \<open>foo\<close> of \<open>B\<close> fails on a file that cannot be read, and
  the target holds the part of \<open>B\<close> that was copied, not the skill of \<open>A\<close>.
\<close>

theorem same_name_failure_counterexample:
  "snd (installSkills [''work''] [exampleSkill ''A'' ''foo'' ''Foo of A'']
          (processCwd [''work'']) exampleFs) = None
   \<and> nodeAt (fst (fst (installSkills [''work''] [exampleSkill ''A'' ''foo'' ''Foo of A'']
          (processCwd [''work'']) exampleFs))) [''work'', ''.claude'', ''skills'', ''foo'']
      = nodeAt exampleFs [''repo'', ''A'', ''foo'']
   \<and> installSkills [''work'']
        [exampleSkill ''A'' ''foo'' ''Foo of A'', exampleSkill ''B'' ''foo'' ''Foo of B'']
        (processCwd [''work'']) exampleFs
      = ((fst (fst (installSkills [''work'']
             [exampleSkill ''A'' ''foo'' ''Foo of A'', exampleSkill ''B'' ''foo'' ''Foo of B'']
             (processCwd [''work'']) exampleFs)), [''Foo of A'']), Some EACCES)
   \<and> nodeAt (fst (fst (installSkills [''work'']
          [exampleSkill ''A'' ''foo'' ''Foo of A'', exampleSkill ''B'' ''foo'' ''Foo of B'']
          (processCwd [''work'']) exampleFs))) [''work'', ''.claude'', ''skills'', ''foo'']
      = Some (Dir True True [(''skill.md'', File (Some ''name: Foo of B''))])
   \<and> nodeAt (fst (fst (installSkills [''work'']
          [exampleSkill ''A'' ''foo'' ''Foo of A'', exampleSkill ''B'' ''foo'' ''Foo of B'']
          (processCwd [''work'']) exampleFs))) [''work'', ''.claude'', ''skills'', ''foo'']
      \<noteq> nodeAt exampleFs [''repo'', ''A'', ''foo'']"
proof -
  let ?a = "exampleSkill ''A'' ''foo'' ''Foo of A''"
  let ?b = "exampleSkill ''B'' ''foo'' ''Foo of B''"
  let ?R1 = "installSkills [''work''] [?a] (processCwd [''work'']) exampleFs"
  let ?R2 = "installSkills [''work''] [?a, ?b] (processCwd [''work'']) exampleFs"
  let ?t = "[''work'', ''.claude'', ''skills'', ''foo'']"
  have a: "snd ?R1 = None" by code_simp
  have b: "nodeAt (fst (fst ?R1)) ?t = nodeAt exampleFs [''repo'', ''A'', ''foo'']" by code_simp
  have c: "snd ?R2 = Some EACCES" by code_simp
  have d: "snd (fst ?R2) = [''Foo of A'']" by code_simp
  have e: "nodeAt (fst (fst ?R2)) ?t = Some (Dir True True [(''skill.md'', File (Some ''name: Foo of B''))])"
    by code_simp
  have f: "nodeAt (fst (fst ?R2)) ?t \<noteq> nodeAt exampleFs [''repo'', ''A'', ''foo'']" by code_simp
  from c d have g: "?R2 = ((fst (fst ?R2), [''Foo of A'']), Some EACCES)"
    by (simp add: prod_eq_iff)
  from a b g e f show ?thesis by blast
qed

text \<open>
  C7, amended: when the skills before \<open>s\<close> are installed, the old target of \<open>s\<close> is
  removed and the copy of \<open>s\<close> fails, the installation ends with the error of the copy,
  success was printed for exactly the skills before \<open>s\<close>, the skills after \<open>s\<close> have
  no effect, and every skill \<open>k\<close> before \<open>s\<close> whose name is not used again by a
  skill after it up to \<open>s\<close> is installed as its source is. There need be no skill
  before \<open>s\<close>.
\<close>

theorem failed_copy_stops_install:
  assumes ok: "\<forall>j \<in> set (pre @ s # post). valid_name (name j)
        \<and> outside (resolve cwd (path_join targetDir CLAUDE_SKILLS_DIR)) (resolve cwd (path j))"
    and before: "installSkills cwd pre targetDir root = ((rk, outk), None)"
    and removed: "(if pathExists cwd rk (path_join (path_join targetDir CLAUDE_SKILLS_DIR) (name s))
                   then remove cwd (path_join (path_join targetDir CLAUDE_SKILLS_DIR) (name s)) rk
                   else (rk, None)) = (rk1, None)"
    and fails: "copy cwd (path s) (path_join (path_join targetDir CLAUDE_SKILLS_DIR) (name s)) rk1
        = (root', Some e)"
  shows "installSkills cwd (pre @ s # post) targetDir root = ((root', map displayName pre), Some e)
     \<and> installSkills cwd (pre @ [s]) targetDir root = ((root', map displayName pre), Some e)
     \<and> (\<forall>xs k ys. pre = xs @ k # ys \<and> name k \<notin> name ` set ys \<and> name k \<noteq> name s \<longrightarrow>
           nodeAt root' (resolve cwd targetDir @ [''.claude'', ''skills'', name k])
             = nodeAt root (resolve cwd (path k))
           \<and> nodeAt root (resolve cwd (path k)) \<noteq> None)"
proof -
  let ?tp = "path_join targetDir CLAUDE_SKILLS_DIR"
  let ?tb = "resolve cwd ?tp"
  let ?src = "\<lambda>j. nodeAt root (resolve cwd (path j))"
  obtain r1 where ens: "ensureDir cwd ?tp root = Inr r1"
    using before by (cases "ensureDir cwd ?tp root") (simp_all add: installSkills_def Let_def)
  have loopk: "installLoop cwd ?tp pre (r1, []) = ((rk, outk), None)"
    using before ens by (simp add: installSkills_def Let_def)
  have turn: "installLoop cwd ?tp (s # rest) (rk, outk) = ((root', outk), Some e)" for rest
    unfolding installLoop_Cons removed by (simp add: fails)
  have run: "installSkills cwd (pre @ s # rest) targetDir root = ((root', outk), Some e)" for rest
  proof -
    have "installSkills cwd (pre @ s # rest) targetDir root
        = installLoop cwd ?tp (pre @ s # rest) (r1, [])"
      using ens by (simp add: installSkills_def Let_def)
    also have "\<dots> = installLoop cwd ?tp (s # rest) (rk, outk)"
      using loopk by (rule installLoop_append)
    finally show ?thesis by (simp only: turn)
  qed
  have okpre: "\<forall>j \<in> set pre. valid_name (name j) \<and> outside ?tb (resolve cwd (path j))"
    using ok by simp
  from installSkills_effect [OF okpre ens] obtain l w E
    where dir: "nodeAt r1 ?tb = Some (Dir l w E)"
      and eff: "installSkills cwd pre targetDir root
        = ((setEntries ?tb (fst (runEntries w ?src pre E)) r1,
            map displayName (fst (snd (runEntries w ?src pre E)))),
           snd (snd (runEntries w ?src pre E)))"
    by blast
  let ?Xk = "fst (runEntries w ?src pre E)"
  from eff before have rk: "rk = setEntries ?tb ?Xk r1"
    and outk: "outk = map displayName (fst (snd (runEntries w ?src pre E)))"
    and noerr: "snd (snd (runEntries w ?src pre E)) = None"
    by simp_all
  from run_success [OF noerr] have installed: "fst (snd (runEntries w ?src pre E)) = pre"
    and copied: "\<forall>j \<in> set pre. snd (copyResult ?src j) = None"
    by simp_all
  have printed: "outk = map displayName pre"
    by (simp only: outk installed)
  have dirk: "nodeAt rk ?tb = Some (Dir l w ?Xk)"
    unfolding rk using dir by (rule setEntries_at)
  have vs: "valid_name (name s)" and os: "outside ?tb (resolve cwd (path s))"
    using ok by simp_all
  let ?srck = "\<lambda>j. nodeAt rk (resolve cwd (path j))"
  have "(setEntries ?tb (fst (stepEntries w ?srck s ?Xk)) rk, snd (stepEntries w ?srck s ?Xk))
      = (root', Some e)"
    using install_step [OF refl dirk vs os, of ?srck] by (simp add: removed fails)
  then have root': "root' = setEntries ?tb (fst (stepEntries w ?srck s ?Xk)) rk"
    by simp
  have dir': "nodeAt root' ?tb = Some (Dir l w (fst (stepEntries w ?srck s ?Xk)))"
    unfolding root' using dirk by (rule setEntries_at)
  have tb: "?tb = resolve cwd targetDir @ [''.claude'', ''skills'']"
    by (rule resolve_targetPath)
  have kept: "nodeAt root' (resolve cwd targetDir @ [''.claude'', ''skills'', name k])
          = nodeAt root (resolve cwd (path k))
        \<and> nodeAt root (resolve cwd (path k)) \<noteq> None"
    if split: "pre = xs @ k # ys" and nk: "name k \<notin> name ` set ys" "name k \<noteq> name s"
    for xs k ys
  proof -
    have "nodeAt root' (?tb @ [name k]) = map_of (fst (stepEntries w ?srck s ?Xk)) (name k)"
      by (simp add: nodeAt_snoc dir')
    also have "\<dots> = map_of ?Xk (name k)"
      using nk(2) by (rule map_of_step_other)
    also have "\<dots> = (case find (\<lambda>j. name j = name k) (rev pre) of
        None \<Rightarrow> map_of E (name k) | Some j \<Rightarrow> ?src j)"
      using noerr by (rule run_lookup)
    also have "find (\<lambda>j. name j = name k) (rev pre) = Some k"
    proof -
      have "\<forall>j \<in> set ys. name j \<noteq> name k" using nk(1) by (metis image_eqI)
      then show ?thesis unfolding split by (rule find_last_named)
    qed
    finally have a: "nodeAt root' (resolve cwd targetDir @ [''.claude'', ''skills'', name k])
        = nodeAt root (resolve cwd (path k))"
      by (simp add: tb)
    have "snd (copyResult ?src k) = None" using copied split by simp
    then have "nodeAt root (resolve cwd (path k)) \<noteq> None"
      using copyResult_ok [of ?src k] by auto
    with a show ?thesis by simp
  qed
  from run [of post] run [of "[]"] printed kept show ?thesis by blast
qed

text \<open>
  C7 at the example: \<open>bar\<close>, \<open>foo\<close> of \<open>A\<close>, \<open>foo\<close> of \<open>B\<close>, which fails, and
  \<open>foo\<close> of \<open>C\<close>, which is not reached; \<open>bar\<close> stays installed.
\<close>

theorem failed_copy_stops_install_witness:
  "valid_name ''bar'' \<and> valid_name ''foo''
   \<and> outside (resolve [''work''] (path_join (processCwd [''work'']) CLAUDE_SKILLS_DIR))
        (resolve [''work''] (path (exampleSkill ''A'' ''bar'' ''Bar'')))
   \<and> outside (resolve [''work''] (path_join (processCwd [''work'']) CLAUDE_SKILLS_DIR))
        (resolve [''work''] (path (exampleSkill ''A'' ''foo'' ''Foo of A'')))
   \<and> outside (resolve [''work''] (path_join (processCwd [''work'']) CLAUDE_SKILLS_DIR))
        (resolve [''work''] (path (exampleSkill ''B'' ''foo'' ''Foo of B'')))
   \<and> outside (resolve [''work''] (path_join (processCwd [''work'']) CLAUDE_SKILLS_DIR))
        (resolve [''work''] (path (exampleSkill ''C'' ''foo'' ''Foo of C'')))
   \<and> snd (installSkills [''work'']
        [exampleSkill ''A'' ''bar'' ''Bar'', exampleSkill ''A'' ''foo'' ''Foo of A'']
        (processCwd [''work'']) exampleFs) = None
   \<and> pathExists [''work'']
        (fst (fst (installSkills [''work'']
           [exampleSkill ''A'' ''bar'' ''Bar'', exampleSkill ''A'' ''foo'' ''Foo of A'']
           (processCwd [''work'']) exampleFs)))
        (path_join (path_join (processCwd [''work'']) CLAUDE_SKILLS_DIR) ''foo'')
   \<and> snd (remove [''work'']
        (path_join (path_join (processCwd [''work'']) CLAUDE_SKILLS_DIR) ''foo'')
        (fst (fst (installSkills [''work'']
           [exampleSkill ''A'' ''bar'' ''Bar'', exampleSkill ''A'' ''foo'' ''Foo of A'']
           (processCwd [''work'']) exampleFs)))) = None
   \<and> snd (copy [''work''] (path (exampleSkill ''B'' ''foo'' ''Foo of B''))
        (path_join (path_join (processCwd [''work'']) CLAUDE_SKILLS_DIR) ''foo'')
        (fst (remove [''work'']
           (path_join (path_join (processCwd [''work'']) CLAUDE_SKILLS_DIR) ''foo'')
           (fst (fst (installSkills [''work'']
              [exampleSkill ''A'' ''bar'' ''Bar'', exampleSkill ''A'' ''foo'' ''Foo of A'']
              (processCwd [''work'']) exampleFs)))))) = Some EACCES
   \<and> installSkills [''work'']
        [exampleSkill ''A'' ''bar'' ''Bar'', exampleSkill ''A'' ''foo'' ''Foo of A'',
         exampleSkill ''B'' ''foo'' ''Foo of B'', exampleSkill ''C'' ''foo'' ''Foo of C'']
        (processCwd [''work'']) exampleFs
      = installSkills [''work'']
        [exampleSkill ''A'' ''bar'' ''Bar'', exampleSkill ''A'' ''foo'' ''Foo of A'',
         exampleSkill ''B'' ''foo'' ''Foo of B'']
        (processCwd [''work'']) exampleFs
   \<and> snd (installSkills [''work'']
        [exampleSkill ''A'' ''bar'' ''Bar'', exampleSkill ''A'' ''foo'' ''Foo of A'',
         exampleSkill ''B'' ''foo'' ''Foo of B'', exampleSkill ''C'' ''foo'' ''Foo of C'']
        (processCwd [''work'']) exampleFs) = Some EACCES
   \<and> snd (fst (installSkills [''work'']
        [exampleSkill ''A'' ''bar'' ''Bar'', exampleSkill ''A'' ''foo'' ''Foo of A'',
         exampleSkill ''B'' ''foo'' ''Foo of B'', exampleSkill ''C'' ''foo'' ''Foo of C'']
        (processCwd [''work'']) exampleFs)) = [''Bar'', ''Foo of A'']
   \<and> nodeAt (fst (fst (installSkills [''work'']
        [exampleSkill ''A'' ''bar'' ''Bar'', exampleSkill ''A'' ''foo'' ''Foo of A'',
         exampleSkill ''B'' ''foo'' ''Foo of B'', exampleSkill ''C'' ''foo'' ''Foo of C'']
        (processCwd [''work'']) exampleFs))) [''work'', ''.claude'', ''skills'', ''bar'']
      = Some (exampleSkillDir ''name: Bar'')"
proof -
  let ?bar = "exampleSkill ''A'' ''bar'' ''Bar''"
  let ?fa = "exampleSkill ''A'' ''foo'' ''Foo of A''"
  let ?fb = "exampleSkill ''B'' ''foo'' ''Foo of B''"
  let ?fc = "exampleSkill ''C'' ''foo'' ''Foo of C''"
  let ?cw = "processCwd [''work'']"
  let ?tb = "resolve [''work''] (path_join ?cw CLAUDE_SKILLS_DIR)"
  let ?T = "path_join (path_join ?cw CLAUDE_SKILLS_DIR) ''foo''"
  let ?Rk = "installSkills [''work''] [?bar, ?fa] ?cw exampleFs"
  let ?rk = "fst (fst ?Rk)"
  let ?rm = "remove [''work''] ?T ?rk"
  let ?cp = "copy [''work''] (path ?fb) ?T (fst ?rm)"
  let ?R4 = "installSkills [''work''] ([?bar, ?fa] @ ?fb # [?fc]) ?cw exampleFs"
  let ?R3 = "installSkills [''work''] ([?bar, ?fa] @ [?fb]) ?cw exampleFs"
  have v: "valid_name ''bar''" "valid_name ''foo''"
    by code_simp+
  have o: "outside ?tb (resolve [''work''] (path ?bar))" "outside ?tb (resolve [''work''] (path ?fa))"
    "outside ?tb (resolve [''work''] (path ?fb))" "outside ?tb (resolve [''work''] (path ?fc))"
    by code_simp+
  have n: "name ?bar = ''bar''" "name ?fa = ''foo''" "name ?fb = ''foo''" "name ?fc = ''foo''"
    by (simp_all add: exampleSkill_def)
  have h: "\<forall>j \<in> set ([?bar, ?fa] @ ?fb # [?fc]). valid_name (name j)
      \<and> outside ?tb (resolve [''work''] (path j))"
    using v o n by simp
  have b: "snd ?Rk = None" by code_simp
  have ex: "pathExists [''work''] ?rk ?T" by code_simp
  have r: "snd ?rm = None" by code_simp
  have c: "snd ?cp = Some EACCES" by code_simp
  have before: "?Rk = ((?rk, snd (fst ?Rk)), None)"
    using b by (simp add: prod_eq_iff)
  have removed: "(if pathExists [''work''] ?rk (path_join (path_join ?cw CLAUDE_SKILLS_DIR) (name ?fb))
        then remove [''work''] (path_join (path_join ?cw CLAUDE_SKILLS_DIR) (name ?fb)) ?rk
        else (?rk, None)) = (fst ?rm, None)"
    using ex r by (simp add: n prod_eq_iff)
  have fails: "copy [''work''] (path ?fb) (path_join (path_join ?cw CLAUDE_SKILLS_DIR) (name ?fb)) (fst ?rm)
      = (fst ?cp, Some EACCES)"
    using c by (simp add: n prod_eq_iff)
  have wd: "resolve [''work''] ?cw = [''work'']"
    and src: "nodeAt exampleFs (resolve [''work''] (path ?bar)) = Some (exampleSkillDir ''name: Bar'')"
    and shown: "map displayName [?bar, ?fa] = [''Bar'', ''Foo of A'']"
    by code_simp+
  note T = failed_copy_stops_install [OF h before removed fails]
  from T have r4: "?R4 = ((fst ?cp, map displayName [?bar, ?fa]), Some EACCES)"
    and r3: "?R3 = ((fst ?cp, map displayName [?bar, ?fa]), Some EACCES)"
    by blast+
  from T have "[?bar, ?fa] = [] @ ?bar # [?fa] \<and> name ?bar \<notin> name ` set [?fa]
      \<and> name ?bar \<noteq> name ?fb
      \<longrightarrow> nodeAt (fst ?cp) (resolve [''work''] ?cw @ [''.claude'', ''skills'', name ?bar])
          = nodeAt exampleFs (resolve [''work''] (path ?bar))"
    by blast
  then have "nodeAt (fst ?cp) (resolve [''work''] ?cw @ [''.claude'', ''skills'', name ?bar])
      = nodeAt exampleFs (resolve [''work''] (path ?bar))"
    by (simp add: n)
  then have kept: "nodeAt (fst ?cp) [''work'', ''.claude'', ''skills'', ''bar'']
      = Some (exampleSkillDir ''name: Bar'')"
    by (simp only: n wd src append.simps)
  have same: "?R4 = ?R3" by (simp only: r4 r3)
  have e4: "snd ?R4 = Some EACCES" and p4: "snd (fst ?R4) = [''Bar'', ''Foo of A'']"
    and k4: "nodeAt (fst (fst ?R4)) [''work'', ''.claude'', ''skills'', ''bar'']
      = Some (exampleSkillDir ''name: Bar'')"
    by (simp_all only: r4 fst_conv snd_conv shown kept)
  from v o b ex r c same e4 p4 k4 show ?thesis
    by (simp only: append.simps)
qed

end
